theory Spec2Isabelle
  imports Main "HOL-Library.Multiset"
begin

section \<open>Data model (models.ts)\<close>

text \<open>
  \<^verbatim>\<open>enum LogLevel { NOT_SET = 0, DEBUG = 10, INFO = 20, WARNING = 30, ERROR = 40, CRITICAL = 50 }\<close>
  The provider compares levels with \<^verbatim>\<open>>=\<close> on their numeric values.
\<close>

datatype LogLevel = NOT_SET | DEBUG | INFO | WARNING | ERROR | CRITICAL

fun level_value :: "LogLevel \<Rightarrow> int" where
  "level_value NOT_SET = 0"
| "level_value DEBUG = 10"
| "level_value INFO = 20"
| "level_value WARNING = 30"
| "level_value ERROR = 40"
| "level_value CRITICAL = 50"

text \<open>
  \<^verbatim>\<open>enum LogType\<close>: the current models.ts declares the member \<^verbatim>\<open>LOG\<close> only, the earlier
  declaration (kept beside it) has \<^verbatim>\<open>CONFIG, LOG, ANALYTICT\<close>. The provider only tests
  \<^verbatim>\<open>type === LogType.LOG\<close>, so the larger enumeration is taken.
\<close>

datatype LogType = CONFIG | LOG | ANALYTICT

text \<open>\<^verbatim>\<open>type Log\<close>; the payloads \<^verbatim>\<open>content\<close> and \<^verbatim>\<open>user\<close> are opaque to the library.\<close>

record Log =
  uuid :: string
  trace :: string
  level :: LogLevel
  model :: "string option"
  message :: string
  content :: "string option"
  timestamp :: int
  user :: "string option"

text \<open>\<^verbatim>\<open>type Config\<close>\<close>

record Config =
  sync :: bool
  timeout :: int
  logLevel :: LogLevel
  chunkSize :: int

section \<open>Batcher: chunkRecords\<close>

text \<open>
  \<^verbatim>\<open>Array.prototype.splice(start, deleteCount)\<close> as ECMAScript defines it: a negative start
  counts from the end, the start is clamped to the array, the delete count is clamped to
  what is left after the start. The array is changed in place; the model returns the removed
  elements and the array that remains.
\<close>

definition splice :: "'a list \<Rightarrow> int \<Rightarrow> int \<Rightarrow> 'a list \<times> 'a list" where
  "splice items start deleteCount =
     (let len = int (length items);
          actualStart = (if start < 0 then max (len + start) 0 else min start len);
          actualDeleteCount = min (max deleteCount 0) (len - actualStart)
      in (take (nat actualDeleteCount) (drop (nat actualStart) items),
          take (nat actualStart) items @ drop (nat (actualStart + actualDeleteCount)) items))"

text \<open>
  \<^verbatim>\<open>
  const chunkRecords = (items: unknown[], chunkSize: number) => {
      const chunks: unknown[][] = [];
      for (let i = 0; i < items.length; i += chunkSize) {
          chunks.push(items.splice(i, i + chunkSize));
      }
      return chunks;
  }
  \<close>
  The loop state is the counter, the array (shortened by every \<^verbatim>\<open>splice\<close>) and the chunks
  pushed so far (\<open>csize\<close> is the parameter \<^verbatim>\<open>chunkSize\<close>, a name the record \<open>Config\<close>
  has taken). With a chunk size that is not positive the loop never ends, so the loop is a
  partial function and \<open>None\<close> stands for "does not return".
\<close>

partial_function (option) chunk_loop ::
  "int \<Rightarrow> int \<Rightarrow> 'a list \<Rightarrow> 'a list list \<Rightarrow> 'a list list option" where
  "chunk_loop csize i items chunks =
     (if i < int (length items)
      then (case splice items i (i + csize) of
              (removed, rest) \<Rightarrow> chunk_loop csize (i + csize) rest (chunks @ [removed]))
      else Some chunks)"

declare chunk_loop.simps [code]

definition chunkRecords :: "'a list \<Rightarrow> int \<Rightarrow> 'a list list option" where
  "chunkRecords items csize = chunk_loop csize 0 items []"

section \<open>Settings (models.ts: ClientLogSettings)\<close>

text \<open>
  A configuration document as the provider handles it at run time: what \<^verbatim>\<open>response.json()\<close>
  or \<^verbatim>\<open>parseResponse\<close> gives is typed \<^verbatim>\<open>Config\<close> but may be \<^verbatim>\<open>null\<close> or \<^verbatim>\<open>undefined\<close>, which the code
  does not test before it stores the value.
\<close>

datatype json = JUndefined | JNull | JDoc Config

text \<open>
  The optional members are options. The two \<^verbatim>\<open>request\<close> members are functions supplied by the
  application whose result is a promise: the model keeps whether they are set, and what their
  promise settles to is an input of the step that resumes the caller. \<^verbatim>\<open>parseResponse\<close> gives a
  document, or \<open>None\<close> when it throws.
\<close>

record ConfigSyncSettings =
  cs_enabled :: "bool option"
  cs_api :: "string option"
  cs_request :: bool
  cs_parseResponse :: "(json \<Rightarrow> json option) option"

record LogSyncSettings =
  ls_api :: "string option"
  ls_request :: bool

record ServerSettings =
  baseUrl :: "string option"
  headers :: "(string \<times> string) list option"
  configSync :: "ConfigSyncSettings option"
  logSync :: "LogSyncSettings option"

record ClientLogSettings =
  settings_config :: "Config option"
  server :: "ServerSettings option"

text \<open>\<^verbatim>\<open>x || d\<close> on an optional string: \<^verbatim>\<open>undefined\<close> and the empty string are falsy.\<close>

definition or_default :: "string option \<Rightarrow> string \<Rightarrow> string" where
  "or_default x d = (case x of None \<Rightarrow> d | Some s \<Rightarrow> if s = [] then d else s)"

text \<open>
  \<^verbatim>\<open>{'Content-Type': 'application/json', ...(server?.headers || {})}\<close>: the object has the key
  \<^verbatim>\<open>Content-Type\<close> once, in the first place, with the value of the server's headers when they
  have that key; the other keys follow.
\<close>

definition request_headers :: "ServerSettings option \<Rightarrow> (string \<times> string) list" where
  "request_headers srv =
     (let hs = (case srv of None \<Rightarrow> []
                | Some s \<Rightarrow> (case headers s of None \<Rightarrow> [] | Some h \<Rightarrow> h))
      in (''Content-Type'',
          (case map_of hs ''Content-Type'' of None \<Rightarrow> ''application/json'' | Some v \<Rightarrow> v)) #
         filter (\<lambda>kv. fst kv \<noteq> ''Content-Type'') hs)"

section \<open>Effects: errors, console, transport, the logs table\<close>

datatype error = TypeError | ConstraintError | MediumUnavailable

text \<open>
  The console keeps one entry for each \<^verbatim>\<open>console.debug\<close>, \<^verbatim>\<open>console.warn\<close> and
  \<^verbatim>\<open>console.groupCollapsed\<close>; a group is kept by its title.
\<close>

datatype console_entry = ConsoleDebug string | ConsoleWarn string | ConsoleGroup string

text \<open>What a transport promise settles to: it rejects, or it gives a response with its \<^verbatim>\<open>ok\<close>.\<close>

datatype push_outcome = PushRejects | PushResponds bool

text \<open>
  For the configuration pull the response carries the document; \<open>None\<close> as the body is a
  \<^verbatim>\<open>response.json()\<close> that rejects.
\<close>

datatype pull_outcome = PullRejects | PullResponds bool "json option"

text \<open>
  \<^verbatim>\<open>localStorage.setItem\<close> stores the text, or throws (the quota is exceeded, the storage is
  disabled).
\<close>

datatype setItem_outcome = SetItemOk | SetItemThrows

datatype transport_call =
    CustomPush "Log list"
  | FetchPost string "(string \<times> string) list" "Log list"
  | CustomPull
  | FetchGet string "(string \<times> string) list"

datatype db_call = Add Log | ToArray | BulkDelete "string list"

text \<open>
  Modelled from the spec: the Record Store of section 4.1 is the Dexie table \<^verbatim>\<open>logs\<close> that db.ts
  declares with \<^verbatim>\<open>logs: 'uuid, timestamp'\<close> (primary key \<^verbatim>\<open>uuid\<close>, index \<^verbatim>\<open>timestamp\<close>); Dexie is a
  library outside the repository. \<^verbatim>\<open>append\<close> "fails with StorageError if the identifier already
  exists or the medium is unavailable", the listing "returns all currently stored records in
  ascending timestamp order; does not mutate", \<^verbatim>\<open>deleteBatch\<close> is "idempotent - deleting an
  absent id is not an error". The table is the list of its rows in the order they were added,
  which is also the order the listing gives to rows of equal timestamp. The flag \<open>medium_ok\<close>
  is the availability of the medium: while it is off every operation fails.
\<close>

record ClientLogDb =
  logs :: "Log list"
  medium_ok :: bool

definition logs_add :: "Log \<Rightarrow> ClientLogDb \<Rightarrow> error + ClientLogDb" where
  "logs_add data d =
     (if \<not> medium_ok d then Inl MediumUnavailable
      else if uuid data \<in> set (map uuid (logs d)) then Inl ConstraintError
      else Inr (d\<lparr>logs := logs d @ [data]\<rparr>))"

definition logs_orderBy_timestamp_toArray :: "ClientLogDb \<Rightarrow> error + Log list" where
  "logs_orderBy_timestamp_toArray d =
     (if \<not> medium_ok d then Inl MediumUnavailable else Inr (sort_key timestamp (logs d)))"

definition logs_bulkDelete :: "string list \<Rightarrow> ClientLogDb \<Rightarrow> error + ClientLogDb" where
  "logs_bulkDelete keys d =
     (if \<not> medium_ok d then Inl MediumUnavailable
      else Inr (d\<lparr>logs := filter (\<lambda>l. uuid l \<notin> set keys) (logs d)\<rparr>))"

section \<open>The provider (ClientLogProvider)\<close>

text \<open>
  One outbound batch request, the \<^verbatim>\<open>async\<close> arrow function pushed on \<^verbatim>\<open>requests\<close>: it is
  suspended at the transport call, or at \<^verbatim>\<open>bulkDelete\<close>, or its promise has settled.
\<close>

datatype request_phase = AwaitResponse | AwaitDelete | Settled

record request =
  batch :: "Log list"
  phase :: request_phase

text \<open>
  One invocation of \<^verbatim>\<open>pushToServer\<close>: suspended at \<^verbatim>\<open>await db.logs.orderBy('timestamp').toArray()\<close>
  (with the \<^verbatim>\<open>config\<close> and \<^verbatim>\<open>settings?.server\<close> its closure holds), suspended at
  \<^verbatim>\<open>await Promise.all(requests)\<close>, returned, or rejected.
\<close>

datatype run =
    AwaitListing Config "ServerSettings option"
  | AwaitAll "request list"
  | Returned
  | Rejected

text \<open>
  The state of a mounted provider: the ref \<^verbatim>\<open>isInSync\<close>, the React states \<^verbatim>\<open>ready\<close> and
  \<^verbatim>\<open>config\<close>, the props, the database, the browser's \<^verbatim>\<open>localStorage\<close> (a stored text is
  represented by the document \<^verbatim>\<open>JSON.stringify\<close> was given), and what the provider has done so far: the
  console output, the calls on the table, the transport calls, the invocations of
  \<^verbatim>\<open>pushToServer\<close>.
\<close>

record provider =
  isInSync :: bool
  ready :: bool
  config :: Config
  settings :: "ClientLogSettings option"
  db :: ClientLogDb
  localStorage :: "string \<rightharpoonup> json"
  console :: "console_entry list"
  db_calls :: "db_call list"
  transport :: "transport_call list"
  runs :: "run list"

text \<open>
  \<^verbatim>\<open>useRef(false)\<close>, \<^verbatim>\<open>useState<boolean>(false)\<close> and
  \<^verbatim>\<open>useState<Config>(settings?.config || {sync: true, timeout: 1000 * 60 * 5, logLevel: LogLevel.INFO, chunkSize: 10})\<close>.
  The local storage and the database are what the browser holds when the provider mounts.
\<close>

definition default_config :: Config where
  "default_config = \<lparr>sync = True, timeout = 1000 * 60 * 5, logLevel = INFO, chunkSize = 10\<rparr>"

definition ClientLogProvider :: "ClientLogSettings option \<Rightarrow> (string \<rightharpoonup> json) \<Rightarrow> ClientLogDb \<Rightarrow> provider" where
  "ClientLogProvider st ls d =
     \<lparr>isInSync = False,
      ready = False,
      config = (case st of None \<Rightarrow> default_config
                | Some s \<Rightarrow> (case settings_config s of None \<Rightarrow> default_config | Some c \<Rightarrow> c)),
      settings = st,
      db = d,
      localStorage = ls,
      console = [],
      db_calls = [],
      transport = [],
      runs = []\<rparr>"

text \<open>\<^verbatim>\<open>settings?.server\<close>\<close>

definition settings_server :: "provider \<Rightarrow> ServerSettings option" where
  "settings_server p = (case settings p of None \<Rightarrow> None | Some s \<Rightarrow> server s)"

definition console_add :: "console_entry \<Rightarrow> provider \<Rightarrow> provider" where
  "console_add e p = p\<lparr>console := console p @ [e]\<rparr>"

subsection \<open>log\<close>

text \<open>
  \<^verbatim>\<open>
  const log = useCallback(async (data: Log, type: LogType = LogType.LOG) => {
      if (!ready) { console.warn('[CLIENT LOG]: Database not ready'); return; }
      if (type === LogType.LOG) {
          if (data.level >= config.logLevel) {
              try { await db.logs.add(data); console.groupCollapsed('[CLIENT LOG]: Log created'); ... }
              catch (e) { console.groupCollapsed('[CLIENT LOG]: Error record creation'); ... }
          }
      }
  }, [ready, config]);
  \<close>
  The result is \<open>Inr\<close> of the new state when the promise is fulfilled and \<open>Inl\<close> of the error when
  it is rejected.
\<close>

definition log :: "Log \<Rightarrow> LogType option \<Rightarrow> provider \<Rightarrow> error + provider" where
  "log data typ p =
     (let ty = (case typ of None \<Rightarrow> LOG | Some t \<Rightarrow> t) in
      if \<not> ready p then Inr (console_add (ConsoleWarn ''[CLIENT LOG]: Database not ready'') p)
      else if ty = LOG then
        (if level_value (level data) \<ge> level_value (logLevel (config p)) then
           (case logs_add data (db p) of
              Inr d \<Rightarrow>
                Inr (console_add (ConsoleGroup ''[CLIENT LOG]: Log created'')
                       (p\<lparr>db := d, db_calls := db_calls p @ [Add data]\<rparr>))
            | Inl e \<Rightarrow>
                Inr (console_add (ConsoleGroup ''[CLIENT LOG]: Error record creation'')
                       (p\<lparr>db_calls := db_calls p @ [Add data]\<rparr>)))
         else Inr p)
      else Inr p)"

subsection \<open>getConfigFromServer\<close>

text \<open>
  \<^verbatim>\<open>
  if (response.ok) {
      const json = await response.json();
      let config: Config;
      if (server.configSync.parseResponse) { config = server.configSync.parseResponse(json); }
      else { config = json; }
      localStorage.setItem('client-log-config', JSON.stringify(config));
      return config;
  }
  \<close>
  The value is stored before anybody looks at it, and it is stored inside the \<^verbatim>\<open>try\<close>. The
  callers do \<^verbatim>\<open>if (config) { setConfig(config); }\<close>: what they see of the value returned is the
  configuration when it is one, and nothing when it is \<^verbatim>\<open>null\<close> or \<^verbatim>\<open>undefined\<close>.
\<close>

fun returned :: "json \<Rightarrow> Config option" where
  "returned (JDoc c) = Some c"
| "returned JNull = None"
| "returned JUndefined = None"

text \<open>
  The whole function, with what the request settles to and what \<^verbatim>\<open>setItem\<close> does as inputs.
  The result is the returned configuration as the callers see it and the new state.
\<close>

definition getConfigFromServer ::
  "pull_outcome \<Rightarrow> setItem_outcome \<Rightarrow> provider \<Rightarrow> Config option \<times> provider" where
  "getConfigFromServer outcome quota p =
     (let disabled = (None, console_add (ConsoleDebug ''[CLIENT LOG]: Server config not enabled'') p) in
      case settings_server p of
        None \<Rightarrow> disabled
      | Some srv \<Rightarrow>
          (case configSync srv of
             None \<Rightarrow> disabled
           | Some cs \<Rightarrow>
               if cs_enabled cs \<noteq> Some True then disabled
               else
                 let call = (if cs_request cs then CustomPull
                             else FetchGet (or_default (baseUrl srv) ''/api'' @
                                            or_default (cs_api cs) ''/client-log/configs'')
                                           (request_headers (Some srv)));
                     p1 = p\<lparr>transport := transport p @ [call]\<rparr>;
                     failed = (None, console_add (ConsoleGroup ''[CLIENT LOG]: Error load config'') p1)
                 in (case outcome of
                       PullRejects \<Rightarrow> failed
                     | PullResponds ok body \<Rightarrow>
                         if ok then
                           (case body of
                              None \<Rightarrow> failed
                            | Some doc \<Rightarrow>
                                (case (case cs_parseResponse cs of
                                         Some parse \<Rightarrow> parse doc
                                       | None \<Rightarrow> Some doc) of
                                   None \<Rightarrow> failed
                                 | Some cfg \<Rightarrow>
                                     (case quota of
                                        SetItemThrows \<Rightarrow> failed
                                      | SetItemOk \<Rightarrow>
                                          (returned cfg,
                                           p1\<lparr>localStorage :=
                                                (localStorage p1)(''client-log-config'' \<mapsto> cfg)\<rparr>))))
                         else (None, p1))))"

text \<open>\<^verbatim>\<open>getConfigFromServer().then((config) => { if (config) { setConfig(config); } })\<close>\<close>

definition pull_config :: "pull_outcome \<Rightarrow> setItem_outcome \<Rightarrow> provider \<Rightarrow> provider" where
  "pull_config outcome quota p =
     (case getConfigFromServer outcome quota p of
        (None, p1) \<Rightarrow> p1
      | (Some cfg, p1) \<Rightarrow> p1\<lparr>config := cfg\<rparr>)"

subsection \<open>pushToServer\<close>

text \<open>
  An \<^verbatim>\<open>async\<close> function runs without interruption from one \<^verbatim>\<open>await\<close> to the next, so
  \<^verbatim>\<open>pushToServer\<close> is one definition for each stretch.

  From the call to \<^verbatim>\<open>await db.logs.orderBy('timestamp').toArray()\<close>: the two guards, then the
  flag is set and the listing is requested. No guard looks at \<^verbatim>\<open>settings?.server\<close>.
\<close>

definition pushToServer_start :: "provider \<Rightarrow> provider" where
  "pushToServer_start p =
     (if isInSync p then p\<lparr>runs := runs p @ [Returned]\<rparr>
      else if \<not> sync (config p) then
        (console_add (ConsoleGroup ''[CLIENT LOG]: Sync is disabled'') p)
          \<lparr>runs := runs p @ [Returned]\<rparr>
      else p\<lparr>isInSync := True,
             db_calls := db_calls p @ [ToArray],
             runs := runs p @ [AwaitListing (config p) (settings_server p)]\<rparr>)"

text \<open>
  The body of one batch request up to its \<^verbatim>\<open>await\<close>: the custom function when
  \<^verbatim>\<open>server?.logSync?.request\<close> is set, else \<^verbatim>\<open>fetch(baseUrl + api, ...)\<close> with
  \<^verbatim>\<open>baseUrl = server?.baseUrl || '/api'\<close> and \<^verbatim>\<open>api = server?.logSync.api || '/client-log/logs'\<close>.
  The second chain has no \<^verbatim>\<open>?.\<close> after \<^verbatim>\<open>logSync\<close>: with a server that has no \<^verbatim>\<open>logSync\<close> it
  throws a TypeError, which the request's \<^verbatim>\<open>catch\<close> receives.
\<close>

definition request_call :: "ServerSettings option \<Rightarrow> Log list \<Rightarrow> error + transport_call" where
  "request_call srv ls =
     (case srv of
        None \<Rightarrow> Inr (FetchPost (''/api'' @ ''/client-log/logs'') (request_headers srv) ls)
      | Some s \<Rightarrow>
          (case logSync s of
             None \<Rightarrow> Inl TypeError
           | Some l \<Rightarrow>
               if ls_request l then Inr (CustomPush ls)
               else Inr (FetchPost (or_default (baseUrl s) ''/api'' @
                                    or_default (ls_api l) ''/client-log/logs'')
                                   (request_headers srv) ls)))"

definition request_start :: "ServerSettings option \<Rightarrow> provider \<times> request list \<Rightarrow> Log list \<Rightarrow> provider \<times> request list" where
  "request_start srv acc ls =
     (case acc of (p, requests) \<Rightarrow>
        (case request_call srv ls of
           Inl e \<Rightarrow>
             (console_add (ConsoleGroup ''[CLIENT LOG]: Error push logs'') p,
              requests @ [\<lparr>batch = ls, phase = Settled\<rparr>])
         | Inr call \<Rightarrow>
             (p\<lparr>transport := transport p @ [call]\<rparr>,
              requests @ [\<lparr>batch = ls, phase = AwaitResponse\<rparr>])))"

text \<open>
  From the listing to \<^verbatim>\<open>await Promise.all(requests)\<close>. A listing that rejects makes the
  \<^verbatim>\<open>await\<close> throw: nothing catches it, the promise of \<^verbatim>\<open>pushToServer\<close> is rejected and the last
  line is not reached. With no request the function goes on to that line at once. \<open>None\<close>: the
  run is not suspended at the listing, or \<^verbatim>\<open>chunkRecords\<close> does not return.
\<close>

definition pushToServer_listed :: "nat \<Rightarrow> provider \<Rightarrow> provider option" where
  "pushToServer_listed i p =
     (case runs p ! i of
        AwaitListing cfg srv \<Rightarrow>
          (case logs_orderBy_timestamp_toArray (db p) of
             Inl e \<Rightarrow> Some (p\<lparr>runs := (runs p)[i := Rejected]\<rparr>)
           | Inr records \<Rightarrow>
               if records \<noteq> [] then
                 (case chunkRecords records (chunkSize cfg) of
                    None \<Rightarrow> None
                  | Some chunks \<Rightarrow>
                      (case foldl (request_start srv) (p, []) chunks of
                         (p1, requests) \<Rightarrow>
                           if requests \<noteq> [] then
                             Some (p1\<lparr>runs := (runs p1)[i := AwaitAll requests]\<rparr>)
                           else
                             Some (p1\<lparr>isInSync := False, runs := (runs p1)[i := Returned]\<rparr>)))
               else Some (p\<lparr>isInSync := False, runs := (runs p)[i := Returned]\<rparr>))
      | _ \<Rightarrow> None)"

text \<open>
  Request \<open>k\<close> of run \<open>i\<close> resumes from its transport call: \<^verbatim>\<open>if (response.ok)\<close> it asks for
  \<^verbatim>\<open>db.logs.bulkDelete(logs.map(l => l.uuid))\<close>; a rejection goes to the \<^verbatim>\<open>catch\<close>.
\<close>

definition request_responded :: "nat \<Rightarrow> nat \<Rightarrow> push_outcome \<Rightarrow> provider \<Rightarrow> provider option" where
  "request_responded i k outcome p =
     (case runs p ! i of
        AwaitAll requests \<Rightarrow>
          if k < length requests \<and> phase (requests ! k) = AwaitResponse then
            (case outcome of
               PushRejects \<Rightarrow>
                 Some ((console_add (ConsoleGroup ''[CLIENT LOG]: Error push logs'') p)
                         \<lparr>runs := (runs p)[i := AwaitAll (requests[k := (requests ! k)\<lparr>phase := Settled\<rparr>])]\<rparr>)
             | PushResponds ok \<Rightarrow>
                 if ok then
                   Some (p\<lparr>db_calls := db_calls p @ [BulkDelete (map uuid (batch (requests ! k)))],
                           runs := (runs p)[i := AwaitAll (requests[k := (requests ! k)\<lparr>phase := AwaitDelete\<rparr>])]\<rparr>)
                 else
                   Some (p\<lparr>runs := (runs p)[i := AwaitAll (requests[k := (requests ! k)\<lparr>phase := Settled\<rparr>])]\<rparr>))
          else None
      | _ \<Rightarrow> None)"

text \<open>Request \<open>k\<close> of run \<open>i\<close> resumes from \<^verbatim>\<open>bulkDelete\<close>; a rejection goes to the \<^verbatim>\<open>catch\<close>.\<close>

definition request_deleted :: "nat \<Rightarrow> nat \<Rightarrow> provider \<Rightarrow> provider option" where
  "request_deleted i k p =
     (case runs p ! i of
        AwaitAll requests \<Rightarrow>
          if k < length requests \<and> phase (requests ! k) = AwaitDelete then
            (case logs_bulkDelete (map uuid (batch (requests ! k))) (db p) of
               Inl e \<Rightarrow>
                 Some ((console_add (ConsoleGroup ''[CLIENT LOG]: Error push logs'') p)
                         \<lparr>runs := (runs p)[i := AwaitAll (requests[k := (requests ! k)\<lparr>phase := Settled\<rparr>])]\<rparr>)
             | Inr d \<Rightarrow>
                 Some (p\<lparr>db := d,
                         runs := (runs p)[i := AwaitAll (requests[k := (requests ! k)\<lparr>phase := Settled\<rparr>])]\<rparr>))
          else None
      | _ \<Rightarrow> None)"

text \<open>
  Run \<open>i\<close> resumes from \<^verbatim>\<open>await Promise.all(requests)\<close>, which needs every request settled:
  \<^verbatim>\<open>isInSync.current = false\<close>.
\<close>

definition pushToServer_done :: "nat \<Rightarrow> provider \<Rightarrow> provider option" where
  "pushToServer_done i p =
     (case runs p ! i of
        AwaitAll requests \<Rightarrow>
          if list_all (\<lambda>r. phase r = Settled) requests then
            Some (p\<lparr>isInSync := False, runs := (runs p)[i := Returned]\<rparr>)
          else None
      | _ \<Rightarrow> None)"

subsection \<open>The event loop\<close>

text \<open>
  JavaScript runs one callback at a time. An event is one callback of the provider: the
  database reports ready, the application calls \<^verbatim>\<open>log\<close>, a trigger (the interval timer or the
  live query) calls \<^verbatim>\<open>pushToServer\<close>, a suspended run or request resumes, a configuration pull
  completes (with what \<^verbatim>\<open>setItem\<close> does then); \<open>Medium\<close> is the environment making the storage
  medium fail or work again. \<open>fire\<close> gives the state after the callback, or \<open>None\<close> when the
  event cannot happen in the state (or, for a listing, when the callback does not return).
\<close>

datatype event =
    DbReady
  | Submit Log "LogType option"
  | Trigger
  | ListingSettles nat
  | ResponseSettles nat nat push_outcome
  | DeleteSettles nat nat
  | AllSettled nat
  | PullConfig pull_outcome setItem_outcome
  | Medium bool

fun fire :: "event \<Rightarrow> provider \<Rightarrow> provider option" where
  "fire DbReady p = Some ((console_add (ConsoleDebug ''[CLIENT LOG]: Ready!'') p)\<lparr>ready := True\<rparr>)"
| "fire (Submit data typ) p = (case log data typ p of Inl e \<Rightarrow> None | Inr p1 \<Rightarrow> Some p1)"
| "fire Trigger p = Some (pushToServer_start p)"
| "fire (ListingSettles i) p = (if i < length (runs p) then pushToServer_listed i p else None)"
| "fire (ResponseSettles i k outcome) p =
     (if i < length (runs p) then request_responded i k outcome p else None)"
| "fire (DeleteSettles i k) p = (if i < length (runs p) then request_deleted i k p else None)"
| "fire (AllSettled i) p = (if i < length (runs p) then pushToServer_done i p else None)"
| "fire (PullConfig outcome quota) p = Some (pull_config outcome quota p)"
| "fire (Medium b) p = Some (p\<lparr>db := (db p)\<lparr>medium_ok := b\<rparr>\<rparr>)"

fun exec :: "event list \<Rightarrow> provider \<Rightarrow> provider option" where
  "exec [] p = Some p"
| "exec (e # es) p = (case fire e p of None \<Rightarrow> None | Some p1 \<Rightarrow> exec es p1)"

text \<open>A run is active while it is suspended, at the listing or at its requests.\<close>

fun active :: "run \<Rightarrow> bool" where
  "active (AwaitListing cfg srv) = True"
| "active (AwaitAll requests) = True"
| "active Returned = False"
| "active Rejected = False"

subsection \<open>Predicates on states\<close>

text \<open>A run has a transport call in flight while one of its requests waits for the response.\<close>

fun in_flight :: "run \<Rightarrow> bool" where
  "in_flight (AwaitAll requests) = list_ex (\<lambda>r. phase r = AwaitResponse) requests"
| "in_flight r = False"

fun is_listing :: "event \<Rightarrow> bool" where
  "is_listing (ListingSettles i) = True"
| "is_listing e = False"

text \<open>
  The single-flight invariant: the active runs are at most one, and none when the flag is
  clear.
\<close>

definition active_count :: "provider \<Rightarrow> nat" where
  "active_count p = length (filter active (runs p))"

definition single_flight :: "provider \<Rightarrow> bool" where
  "single_flight p \<longleftrightarrow> active_count p \<le> (if isInSync p then 1 else 0)"

text \<open>
  The store invariant: the primary key is unique, the batches of a run are disjoint by key, and
  the batch of a request that has not settled is still in the table.
\<close>

definition store_ok :: "provider \<Rightarrow> bool" where
  "store_ok p \<longleftrightarrow>
     distinct (map uuid (logs (db p))) \<and>
     (\<forall>i rs. i < length (runs p) \<and> runs p ! i = AwaitAll rs \<longrightarrow>
        distinct (map uuid (concat (map batch rs))) \<and>
        (\<forall>q \<in> set rs. phase q \<noteq> Settled \<longrightarrow> set (batch q) \<subseteq> set (logs (db p))))"

text \<open>
  The records \<open>B\<close> are in the table and no request that can still delete holds one of their
  keys.
\<close>

definition retained :: "Log list \<Rightarrow> provider \<Rightarrow> bool" where
  "retained B p \<longleftrightarrow>
     set B \<subseteq> set (logs (db p)) \<and>
     (\<forall>i rs. i < length (runs p) \<and> runs p ! i = AwaitAll rs \<longrightarrow>
        (\<forall>q \<in> set rs. phase q \<noteq> Settled \<longrightarrow> uuid ` set (batch q) \<inter> uuid ` set B = {}))"

subsection \<open>Sample data\<close>

text \<open>
  Records as the playground's \<^verbatim>\<open>App.tsx\<close> makes them, told apart by a number; a table of the
  first \<open>n\<close> of them; a configuration with a given chunk size; settings with a server.
\<close>

definition sample_log :: "nat \<Rightarrow> Log" where
  "sample_log n =
     \<lparr>uuid = ''UUID'' @ replicate n (CHR ''0''), trace = ''TRACE'', level = INFO, model = None,
      message = ''Log Playground'', content = None, timestamp = int n, user = None\<rparr>"

definition sample_db :: "nat \<Rightarrow> ClientLogDb" where
  "sample_db n = \<lparr>logs = map sample_log [0..<n], medium_ok = True\<rparr>"

definition sample_config :: "int \<Rightarrow> Config" where
  "sample_config n = \<lparr>sync = True, timeout = 60000, logLevel = INFO, chunkSize = n\<rparr>"

definition sample_settings :: "int \<Rightarrow> ClientLogSettings" where
  "sample_settings n =
     \<lparr>settings_config = Some (sample_config n),
      server = Some \<lparr>baseUrl = Some ''https://collector.example'', headers = None,
                     configSync = Some \<lparr>cs_enabled = Some True, cs_api = None,
                                        cs_request = False, cs_parseResponse = None\<rparr>,
                     logSync = Some \<lparr>ls_api = None, ls_request = False\<rparr>\<rparr>\<rparr>"

section \<open>Properties of chunkRecords\<close>

lemma take_drop_mset: "mset (take d (drop a xs)) + (mset (take a xs) + mset (drop (a + d) xs)) = mset xs"
proof -
  have "take a xs @ (take d (drop a xs) @ drop d (drop a xs)) = xs"
    by (simp only: append_take_drop_id)
  moreover have "drop d (drop a xs) = drop (a + d) xs" by (simp add: add.commute)
  ultimately have "mset xs = mset (take a xs @ take d (drop a xs) @ drop (a + d) xs)" by simp
  then show ?thesis by (simp add: ac_simps)
qed

lemma splice_mset:
  assumes h: "splice items start deleteCount = (removed, rest)"
  shows "mset removed + mset rest = mset items"
proof -
  define a where "a = (if start < 0 then max (int (length items) + start) 0
                           else min start (int (length items)))"
  define d where "d = (min (max deleteCount 0) (int (length items) - a))"
  have a0: "0 \<le> a" by (simp add: a_def)
  have d0: "0 \<le> d" unfolding d_def a_def by simp
  have "splice items start deleteCount =
     (take (nat d) (drop (nat a) items), take (nat a) items @ drop (nat (a + d)) items)"
    unfolding splice_def Let_def a_def d_def ..
  with h have r: "removed = take (nat d) (drop (nat a) items)"
     "rest = take (nat a) items @ drop (nat (a + d)) items" by simp_all
  have "nat (a + d) = nat a + nat d" using a0 d0 by (simp add: nat_add_distrib)
  then show ?thesis unfolding r by (simp add: take_drop_mset)
qed

lemma splice_length:
  assumes "splice items i (i + c) = (removed, rest)" "0 \<le> i" "i < int (length items)" "0 < c"
  shows "int (length rest) - (i + c) < int (length items) - i"
proof -
  have "size (mset removed + mset rest) = size (mset items)"
    using splice_mset [OF assms(1)] by simp
  then have "length removed + length rest = length items" by simp
  then show ?thesis using assms(4) by linarith
qed

lemma chunk_loop_returns_aux:
  "0 < c \<Longrightarrow> 0 \<le> i \<Longrightarrow> n = nat (int (length items) - i) \<Longrightarrow>
   \<exists>r. chunk_loop c i items chunks = Some r"
proof (induction n arbitrary: i items chunks rule: less_induct)
  case (less n)
  show ?case
  proof (cases "i < int (length items)")
    case False
    then show ?thesis by (subst chunk_loop.simps) simp
  next
    case True
    obtain removed rest where sp: "splice items i (i + c) = (removed, rest)"
      by (cases "splice items i (i + c)")
    have dec: "int (length rest) - (i + c) < int (length items) - i"
      using splice_length [OF sp less.prems(2) True less.prems(1)] .
    have "nat (int (length rest) - (i + c)) < n"
      using dec True less.prems(3) by linarith
    moreover have "0 \<le> i + c" using less.prems by simp
    ultimately obtain r where "chunk_loop c (i + c) rest (chunks @ [removed]) = Some r"
      using less.IH [OF _ less.prems(1), of _ "i + c" rest "chunks @ [removed]"] by blast
    then show ?thesis
      using True sp by (subst chunk_loop.simps) simp
  qed
qed

lemma chunkRecords_returns:
  assumes "0 < c"
  shows "\<exists>r. chunkRecords items c = Some r"
  unfolding chunkRecords_def by (rule chunk_loop_returns_aux [OF assms _ refl]) simp

lemma chunk_loop_sub:
  assumes "chunk_loop c i items chunks = Some r"
  shows "mset (concat r) \<subseteq># mset (concat chunks) + mset items"
proof (rule chunk_loop.raw_induct
    [where P = "\<lambda>c i items chunks r. mset (concat r) \<subseteq># mset (concat chunks) + mset items",
     OF _ assms])
  fix f :: "int \<Rightarrow> int \<Rightarrow> 'a list \<Rightarrow> 'a list list \<Rightarrow> 'a list list option"
  fix c i items chunks r
  assume IH: "\<And>c i items chunks r. f c i items chunks = Some r \<Longrightarrow>
                mset (concat r) \<subseteq># mset (concat chunks) + mset items"
  assume eq: "(if i < int (length items)
               then case splice items i (i + c) of
                      (removed, rest) \<Rightarrow> f c (i + c) rest (chunks @ [removed])
               else Some chunks) = Some r"
  show "mset (concat r) \<subseteq># mset (concat chunks) + mset items"
  proof (cases "i < int (length items)")
    case False
    with eq show ?thesis by simp
  next
    case True
    obtain removed rest where sp: "splice items i (i + c) = (removed, rest)"
      by (cases "splice items i (i + c)")
    with True eq have "f c (i + c) rest (chunks @ [removed]) = Some r" by simp
    from IH [OF this] splice_mset [OF sp] show ?thesis
      by (simp add: ac_simps) (metis add.assoc add.commute)
  qed
qed

lemma chunkRecords_sub: "chunkRecords items c = Some r \<Longrightarrow> mset (concat r) \<subseteq># mset items"
  unfolding chunkRecords_def using chunk_loop_sub [of c 0 items "[]" r] by simp

lemma distinct_sub_mset:
  assumes "mset xs \<subseteq># mset ys" "distinct ys"
  shows "distinct xs"
proof -
  have "count (mset xs) a = (if a \<in> set xs then 1 else 0)" for a
  proof -
    have "count (mset xs) a \<le> count (mset ys) a"
      using assms(1) by (rule mset_subset_eq_count)
    also have "\<dots> \<le> 1" using assms(2) by (simp add: distinct_count_atmost_1)
    finally have le: "count (mset xs) a \<le> 1" .
    show ?thesis
    proof (cases "a \<in> set xs")
      case True
      then have "count (mset xs) a \<noteq> 0" by (simp add: count_eq_zero_iff)
      with le have "count (mset xs) a = 1" by linarith
      with True show ?thesis by simp
    next
      case False
      then show ?thesis by (simp add: count_eq_zero_iff)
    qed
  qed
  then show ?thesis by (simp add: distinct_count_atmost_1)
qed

lemma chunkRecords_distinct:
  assumes "chunkRecords items c = Some r" "distinct (map f items)"
  shows "distinct (map f (concat r))" "set (concat r) \<subseteq> set items"
proof -
  have sub: "mset (concat r) \<subseteq># mset items" using chunkRecords_sub [OF assms(1)] .
  then have "mset (map f (concat r)) \<subseteq># mset (map f items)"
    by (simp add: image_mset_subseteq_mono)
  then show "distinct (map f (concat r))" using assms(2) by (rule distinct_sub_mset)
  show "set (concat r) \<subseteq> set items" using set_mset_mono [OF sub] by simp
qed

lemma distinct_concat_nth:
  "distinct (concat xss) \<Longrightarrow> m < length xss \<Longrightarrow> k < length xss \<Longrightarrow> m \<noteq> k \<Longrightarrow>
   set (xss ! m) \<inter> set (xss ! k) = {}"
proof (induction xss arbitrary: m k)
  case Nil
  then show ?case by simp
next
  case (Cons x xss)
  have d: "distinct (concat xss)" "set x \<inter> \<Union> (set ` set xss) = {}"
    using Cons.prems(1) by auto
  have mem: "\<And>n. n < length xss \<Longrightarrow> set (xss ! n) \<subseteq> \<Union> (set ` set xss)"
    by (metis UN_upper nth_mem)
  show ?case
  proof (cases m)
    case 0
    with Cons.prems obtain k' where k: "k = Suc k'" "k' < length xss" by (cases k) auto
    with 0 d(2) mem [of k'] show ?thesis by auto
  next
    case (Suc m')
    note mS = Suc
    show ?thesis
    proof (cases k)
      case 0
      with mS Cons.prems d(2) mem [of m'] show ?thesis by auto
    next
      case (Suc k')
      with mS Cons.prems Cons.IH [OF d(1), of m' k'] show ?thesis by simp
    qed
  qed
qed

lemma batches_disjoint:
  assumes "distinct (map uuid (concat (map batch rs)))" "m < length rs" "k < length rs" "m \<noteq> k"
  shows "uuid ` set (batch (rs ! m)) \<inter> uuid ` set (batch (rs ! k)) = {}"
proof -
  have "distinct (concat (map (map uuid) (map batch rs)))"
    using assms(1) by (simp add: map_concat)
  from distinct_concat_nth [OF this, of m k] assms(2-4) show ?thesis by simp
qed

lemma filter_keeps:
  assumes "set B \<subseteq> set xs" "uuid ` set D \<inter> uuid ` set B = {}"
  shows "set B \<subseteq> set (filter (\<lambda>l. uuid l \<notin> set (map uuid D)) xs)"
  using assms by auto

section \<open>What each callback changes\<close>

lemma request_start_foldl:
  "foldl (request_start srv) (p, rs) chunks = (p1, rs1) \<Longrightarrow>
   runs p1 = runs p \<and> db p1 = db p \<and> isInSync p1 = isInSync p \<and>
   map batch rs1 = map batch rs @ chunks"
proof (induction chunks arbitrary: p rs)
  case Nil
  then show ?case by simp
next
  case (Cons c cs)
  obtain p2 rs2 where st: "request_start srv (p, rs) c = (p2, rs2)"
    by (cases "request_start srv (p, rs) c")
  then have a: "runs p2 = runs p \<and> db p2 = db p \<and> isInSync p2 = isInSync p \<and>
                map batch rs2 = map batch rs @ [c]"
    by (auto simp: request_start_def console_add_def split: sum.splits)
  from Cons.prems st have "foldl (request_start srv) (p2, rs2) cs = (p1, rs1)" by simp
  from Cons.IH [OF this] a show ?case by simp
qed

lemma log_effect:
  assumes "log data typ p = Inr p1"
  shows "runs p1 = runs p \<and> isInSync p1 = isInSync p \<and>
         (logs (db p1) = logs (db p) \<or>
          logs (db p1) = logs (db p) @ [data] \<and> uuid data \<notin> set (map uuid (logs (db p))))"
  using assms
  by (auto simp: log_def logs_add_def console_add_def Let_def split: if_splits sum.splits)

lemma pull_config_effect:
  "runs (pull_config outcome quota p) = runs p \<and>
   isInSync (pull_config outcome quota p) = isInSync p \<and>
   db (pull_config outcome quota p) = db p"
  by (auto simp: pull_config_def getConfigFromServer_def console_add_def Let_def
           split: option.splits pull_outcome.splits setItem_outcome.splits prod.splits if_splits)

lemma pushToServer_start_effect:
  "db (pushToServer_start p) = db p \<and>
   (if isInSync p \<or> \<not> sync (config p)
    then runs (pushToServer_start p) = runs p @ [Returned] \<and>
         isInSync (pushToServer_start p) = isInSync p
    else runs (pushToServer_start p) = runs p @ [AwaitListing (config p) (settings_server p)] \<and>
         isInSync (pushToServer_start p))"
  by (simp add: pushToServer_start_def console_add_def)

lemma pushToServer_listed_effect:
  assumes "pushToServer_listed i p = Some p1"
  shows "\<exists>cfg srv. runs p ! i = AwaitListing cfg srv \<and> db p1 = db p \<and>
           (runs p1 = (runs p)[i := Rejected] \<and> isInSync p1 = isInSync p
            \<or> runs p1 = (runs p)[i := Returned] \<and> \<not> isInSync p1
            \<or> (\<exists>rs chunks. runs p1 = (runs p)[i := AwaitAll rs] \<and> isInSync p1 = isInSync p
                  \<and> medium_ok (db p)
                  \<and> chunkRecords (sort_key timestamp (logs (db p))) (chunkSize cfg) = Some chunks
                  \<and> map batch rs = chunks))"
proof (cases "runs p ! i")
  case (AwaitListing cfg srv)
  show ?thesis
  proof (cases "logs_orderBy_timestamp_toArray (db p)")
    case (Inl e)
    with AwaitListing assms show ?thesis by (auto simp: pushToServer_listed_def)
  next
    case (Inr records)
    then have rec: "records = sort_key timestamp (logs (db p))" and ok: "medium_ok (db p)"
      by (auto simp: logs_orderBy_timestamp_toArray_def split: if_splits)
    show ?thesis
    proof (cases "records = []")
      case True
      with AwaitListing Inr assms show ?thesis by (auto simp: pushToServer_listed_def)
    next
      case False
      with AwaitListing Inr assms obtain chunks where
        ch: "chunkRecords records (chunkSize cfg) = Some chunks"
        by (auto simp: pushToServer_listed_def split: option.splits)
      obtain p2 rs where f: "foldl (request_start srv) (p, []) chunks = (p2, rs)"
        by (cases "foldl (request_start srv) (p, []) chunks")
      from request_start_foldl [OF f]
      have e: "runs p2 = runs p" "db p2 = db p" "isInSync p2 = isInSync p" "map batch rs = chunks"
        by simp_all
      from AwaitListing Inr False ch f assms
      have "p1 = (if rs \<noteq> [] then p2\<lparr>runs := (runs p2)[i := AwaitAll rs]\<rparr>
                  else p2\<lparr>isInSync := False, runs := (runs p2)[i := Returned]\<rparr>)"
        by (auto simp: pushToServer_listed_def)
      with e ch rec ok AwaitListing show ?thesis by auto
    qed
  qed
qed (use assms in \<open>auto simp: pushToServer_listed_def\<close>)

lemma request_responded_effect:
  assumes "request_responded i k outcome p = Some p1"
  shows "\<exists>rs ph. runs p ! i = AwaitAll rs \<and> k < length rs \<and> phase (rs ! k) = AwaitResponse \<and>
           runs p1 = (runs p)[i := AwaitAll (rs[k := (rs ! k)\<lparr>phase := ph\<rparr>])] \<and>
           (ph = Settled \<or> ph = AwaitDelete \<and> outcome = PushResponds True) \<and>
           db p1 = db p \<and> isInSync p1 = isInSync p"
  using assms
  by (cases "runs p ! i")
     (auto simp: request_responded_def console_add_def split: if_splits push_outcome.splits)

lemma request_deleted_effect:
  assumes "request_deleted i k p = Some p1"
  shows "\<exists>rs. runs p ! i = AwaitAll rs \<and> k < length rs \<and> phase (rs ! k) = AwaitDelete \<and>
           runs p1 = (runs p)[i := AwaitAll (rs[k := (rs ! k)\<lparr>phase := Settled\<rparr>])] \<and>
           (logs (db p1) = logs (db p) \<or>
            logs (db p1) = filter (\<lambda>l. uuid l \<notin> set (map uuid (batch (rs ! k)))) (logs (db p))) \<and>
           isInSync p1 = isInSync p"
  using assms
  by (cases "runs p ! i")
     (auto simp: request_deleted_def logs_bulkDelete_def console_add_def split: if_splits sum.splits)

lemma pushToServer_done_effect:
  assumes "pushToServer_done i p = Some p1"
  shows "\<exists>rs. runs p ! i = AwaitAll rs \<and> list_all (\<lambda>r. phase r = Settled) rs \<and>
           runs p1 = (runs p)[i := Returned] \<and> \<not> isInSync p1 \<and> db p1 = db p"
  using assms
  by (cases "runs p ! i") (auto simp: pushToServer_done_def split: if_splits)

section \<open>Single flight\<close>

lemma filter_update_length:
  "i < length xs \<Longrightarrow>
   length (filter P (xs[i := y])) + (if P (xs ! i) then 1 else 0)
   = length (filter P xs) + (if P y then 1 else 0)"
proof (induction xs arbitrary: i)
  case Nil
  then show ?case by simp
next
  case (Cons x xs)
  then show ?case by (cases i) auto
qed

lemma filter_at_most_one:
  "length (filter P xs) \<le> 1 \<Longrightarrow> i < length xs \<Longrightarrow> j < length xs \<Longrightarrow>
   P (xs ! i) \<Longrightarrow> P (xs ! j) \<Longrightarrow> i = j"
proof (induction xs arbitrary: i j)
  case Nil
  then show ?case by simp
next
  case (Cons x xs)
  have pos: "\<And>m. m < length xs \<Longrightarrow> P (xs ! m) \<Longrightarrow> 0 < length (filter P xs)"
    by (metis filter_empty_conv length_greater_0_conv nth_mem)
  show ?case
  proof (cases i)
    case 0
    note i0 = 0
    show ?thesis
    proof (cases j)
      case 0
      with i0 show ?thesis by simp
    next
      case (Suc j')
      with Cons.prems i0 pos [of j'] show ?thesis by (auto split: if_splits)
    qed
  next
    case (Suc i')
    note iS = Suc
    show ?thesis
    proof (cases j)
      case 0
      with Cons.prems iS pos [of i'] show ?thesis by (auto split: if_splits)
    next
      case (Suc j')
      have "length (filter P xs) \<le> 1" using Cons.prems(1) by (auto split: if_splits)
      from Cons.IH [OF this, of i' j'] Cons.prems iS Suc show ?thesis by simp
    qed
  qed
qed

lemma active_count_update:
  "i < length (runs p) \<Longrightarrow> runs p1 = (runs p)[i := r] \<Longrightarrow>
   active_count p1 + (if active (runs p ! i) then 1 else 0)
   = active_count p + (if active r then 1 else 0)"
  unfolding active_count_def using filter_update_length [of i "runs p" active r] by simp

lemma single_flight_fire:
  assumes inv: "single_flight p" and f: "fire e p = Some p1"
  shows "single_flight p1"
proof (cases e)
  case DbReady
  with f inv show ?thesis by (auto simp: single_flight_def active_count_def console_add_def)
next
  case (Submit data ty)
  with f obtain "log data ty p = Inr p1" by (auto split: sum.splits)
  from log_effect [OF this] inv show ?thesis by (simp add: single_flight_def active_count_def)
next
  case Trigger
  with f have "p1 = pushToServer_start p" by simp
  with pushToServer_start_effect [of p] inv show ?thesis
    by (auto simp: single_flight_def active_count_def split: if_splits)
next
  case (ListingSettles i)
  with f have i: "i < length (runs p)" and l: "pushToServer_listed i p = Some p1"
    by (auto split: if_splits)
  from pushToServer_listed_effect [OF l] obtain cfg srv where
    r: "runs p ! i = AwaitListing cfg srv" and
    c: "runs p1 = (runs p)[i := Rejected] \<and> isInSync p1 = isInSync p
        \<or> runs p1 = (runs p)[i := Returned] \<and> \<not> isInSync p1
        \<or> (\<exists>rs. runs p1 = (runs p)[i := AwaitAll rs] \<and> isInSync p1 = isInSync p)"
    by blast
  from c show ?thesis
  proof (elim disjE conjE exE)
    assume a: "runs p1 = (runs p)[i := Rejected]" "isInSync p1 = isInSync p"
    from active_count_update [OF i a(1)] r a(2) inv show ?thesis
      by (auto simp: single_flight_def split: if_splits)
  next
    assume a: "runs p1 = (runs p)[i := Returned]" "\<not> isInSync p1"
    from active_count_update [OF i a(1)] r a(2) inv show ?thesis
      by (auto simp: single_flight_def split: if_splits)
  next
    fix rs assume a: "runs p1 = (runs p)[i := AwaitAll rs]" "isInSync p1 = isInSync p"
    from active_count_update [OF i a(1)] r a(2) inv show ?thesis
      by (auto simp: single_flight_def split: if_splits)
  qed
next
  case (ResponseSettles i k outcome)
  with f have i: "i < length (runs p)" and l: "request_responded i k outcome p = Some p1"
    by (auto split: if_splits)
  from request_responded_effect [OF l] obtain rs rs' where
    a: "runs p ! i = AwaitAll rs" "runs p1 = (runs p)[i := AwaitAll rs']" "isInSync p1 = isInSync p"
    by blast
  from active_count_update [OF i a(2)] a(1,3) inv show ?thesis
    by (auto simp: single_flight_def split: if_splits)
next
  case (DeleteSettles i k)
  with f have i: "i < length (runs p)" and l: "request_deleted i k p = Some p1"
    by (auto split: if_splits)
  from request_deleted_effect [OF l] obtain rs rs' where
    a: "runs p ! i = AwaitAll rs" "runs p1 = (runs p)[i := AwaitAll rs']" "isInSync p1 = isInSync p"
    by blast
  from active_count_update [OF i a(2)] a(1,3) inv show ?thesis
    by (auto simp: single_flight_def split: if_splits)
next
  case (AllSettled i)
  with f have i: "i < length (runs p)" and l: "pushToServer_done i p = Some p1"
    by (auto split: if_splits)
  from pushToServer_done_effect [OF l] obtain rs where
    a: "runs p ! i = AwaitAll rs" "runs p1 = (runs p)[i := Returned]" "\<not> isInSync p1"
    by blast
  from active_count_update [OF i a(2)] a(1,3) inv show ?thesis
    by (auto simp: single_flight_def split: if_splits)
next
  case (PullConfig outcome quota)
  with f have "p1 = pull_config outcome quota p" by simp
  with pull_config_effect [of outcome quota p] inv show ?thesis
    by (simp add: single_flight_def active_count_def)
next
  case (Medium b)
  with f inv show ?thesis by (auto simp: single_flight_def active_count_def)
qed

lemma single_flight_exec:
  "single_flight p \<Longrightarrow> exec evs p = Some p1 \<Longrightarrow> single_flight p1"
proof (induction evs arbitrary: p)
  case Nil
  then show ?case by simp
next
  case (Cons e es)
  then obtain p2 where "fire e p = Some p2" "exec es p2 = Some p1"
    by (auto split: option.splits)
  with Cons.IH single_flight_fire [OF Cons.prems(1)] show ?case by blast
qed

lemma single_flight_init: "single_flight (ClientLogProvider st ls d)"
  by (simp add: single_flight_def active_count_def ClientLogProvider_def)

lemma in_flight_active: "in_flight r \<Longrightarrow> active r"
  by (cases r) auto

lemma triggers_while_syncing:
  "isInSync p \<Longrightarrow>
   exec (replicate n Trigger) p = Some (p\<lparr>runs := runs p @ replicate n Returned\<rparr>)"
proof (induction n arbitrary: p)
  case 0
  then show ?case by simp
next
  case (Suc n)
  let ?q = "p\<lparr>runs := runs p @ [Returned]\<rparr>"
  have "fire Trigger p = Some ?q" using Suc.prems by (simp add: pushToServer_start_def)
  moreover have "isInSync ?q" using Suc.prems by simp
  from Suc.IH [OF this]
  have "exec (replicate n Trigger) ?q = Some (p\<lparr>runs := runs p @ replicate (Suc n) Returned\<rparr>)"
    by (simp add: replicate_app_Cons_same)
  ultimately show ?case by simp
qed

section \<open>The store invariant\<close>

lemma single_flight_unique:
  assumes "single_flight p" "i < length (runs p)" "j < length (runs p)"
    "active (runs p ! i)" "active (runs p ! j)"
  shows "i = j"
proof -
  have "length (filter active (runs p)) \<le> 1"
    using assms(1) by (auto simp: single_flight_def active_count_def split: if_splits)
  from filter_at_most_one [OF this assms(2,3)] assms(4,5) show ?thesis by blast
qed

lemma only_run:
  assumes "single_flight p" "i < length (runs p)" "active (runs p ! i)"
    "j < length (runs p)" "((runs p)[i := r]) ! j = AwaitAll rs"
  shows "j = i \<and> r = AwaitAll rs"
proof (cases "j = i")
  case True
  with assms(2,5) show ?thesis by simp
next
  case False
  with assms(5) have "runs p ! j = AwaitAll rs" by simp
  then have "active (runs p ! j)" by simp
  from single_flight_unique [OF assms(1,2,4,3) this] False show ?thesis by simp
qed

lemma map_batch_update:
  "k < length rs \<Longrightarrow> map batch (rs[k := (rs ! k)\<lparr>phase := ph\<rparr>]) = map batch rs"
  by (simp add: map_update list_update_same_conv)

lemma update_member:
  assumes "q \<in> set (rs[k := y])" "k < length rs"
  shows "q = y \<or> (\<exists>m. m < length rs \<and> m \<noteq> k \<and> q = rs ! m)"
proof -
  from assms(1) obtain m where m: "m < length rs" "q = (rs[k := y]) ! m"
    by (auto simp: in_set_conv_nth)
  then show ?thesis by (cases "m = k") auto
qed

lemma store_ok_update:
  assumes "store_ok p" "i < length (runs p)" "runs p1 = (runs p)[i := r]"
    "logs (db p1) = logs (db p)"
    "\<And>rs. r = AwaitAll rs \<Longrightarrow>
       distinct (map uuid (concat (map batch rs))) \<and>
       (\<forall>q \<in> set rs. phase q \<noteq> Settled \<longrightarrow> set (batch q) \<subseteq> set (logs (db p)))"
  shows "store_ok p1"
  unfolding store_ok_def
proof (intro conjI allI impI)
  show "distinct (map uuid (logs (db p1)))" using assms(1,4) by (simp add: store_ok_def)
next
  fix j rs assume a: "j < length (runs p1) \<and> runs p1 ! j = AwaitAll rs"
  have "distinct (map uuid (concat (map batch rs))) \<and>
        (\<forall>q \<in> set rs. phase q \<noteq> Settled \<longrightarrow> set (batch q) \<subseteq> set (logs (db p)))"
  proof (cases "j = i")
    case True
    with a assms(2,3) have "r = AwaitAll rs" by simp
    then show ?thesis by (rule assms(5))
  next
    case False
    with a assms(3) have "j < length (runs p) \<and> runs p ! j = AwaitAll rs" by simp
    with assms(1) show ?thesis unfolding store_ok_def by blast
  qed
  then show "distinct (map uuid (concat (map batch rs)))"
    and "\<forall>q \<in> set rs. phase q \<noteq> Settled \<longrightarrow> set (batch q) \<subseteq> set (logs (db p1))"
    using assms(4) by simp_all
qed

lemma store_ok_append:
  assumes "store_ok p" "runs p1 = runs p @ [r]" "logs (db p1) = logs (db p)"
    "\<And>rs. r \<noteq> AwaitAll rs"
  shows "store_ok p1"
  unfolding store_ok_def
proof (intro conjI allI impI)
  show "distinct (map uuid (logs (db p1)))" using assms(1,3) by (simp add: store_ok_def)
next
  fix j rs assume a: "j < length (runs p1) \<and> runs p1 ! j = AwaitAll rs"
  have "j \<noteq> length (runs p)" using a assms(2,4) by (auto simp: nth_append)
  with a assms(2) have "j < length (runs p) \<and> runs p ! j = AwaitAll rs"
    by (auto simp: nth_append)
  with assms(1) have "distinct (map uuid (concat (map batch rs))) \<and>
        (\<forall>q \<in> set rs. phase q \<noteq> Settled \<longrightarrow> set (batch q) \<subseteq> set (logs (db p)))"
    unfolding store_ok_def by blast
  then show "distinct (map uuid (concat (map batch rs)))"
    and "\<forall>q \<in> set rs. phase q \<noteq> Settled \<longrightarrow> set (batch q) \<subseteq> set (logs (db p1))"
    using assms(3) by simp_all
qed

lemma store_ok_same:
  "store_ok p \<Longrightarrow> logs (db p1) = logs (db p) \<Longrightarrow> runs p1 = runs p \<Longrightarrow> store_ok p1"
  by (simp add: store_ok_def)

lemma store_ok_fire:
  assumes sf: "single_flight p" and ok: "store_ok p" and f: "fire e p = Some p1"
  shows "store_ok p1"
proof (cases e)
  case DbReady
  with f have "logs (db p1) = logs (db p)" "runs p1 = runs p"
    by (auto simp: console_add_def)
  with ok show ?thesis by (rule store_ok_same)
next
  case (Submit data ty)
  with f obtain "log data ty p = Inr p1" by (auto split: sum.splits)
  from log_effect [OF this] have r: "runs p1 = runs p"
    and l: "logs (db p1) = logs (db p) \<or>
          logs (db p1) = logs (db p) @ [data] \<and> uuid data \<notin> set (map uuid (logs (db p)))"
    by simp_all
  from l show ?thesis
  proof
    assume "logs (db p1) = logs (db p)"
    with ok r show ?thesis by (simp add: store_ok_same)
  next
    assume a: "logs (db p1) = logs (db p) @ [data] \<and> uuid data \<notin> set (map uuid (logs (db p)))"
    then have sub: "set (logs (db p)) \<subseteq> set (logs (db p1))" by auto
    from a ok have "distinct (map uuid (logs (db p1)))" by (simp add: store_ok_def)
    moreover have "distinct (map uuid (concat (map batch rs))) \<and>
        (\<forall>q \<in> set rs. phase q \<noteq> Settled \<longrightarrow> set (batch q) \<subseteq> set (logs (db p1)))"
      if "j < length (runs p1) \<and> runs p1 ! j = AwaitAll rs" for j rs
    proof -
      from that r ok have "distinct (map uuid (concat (map batch rs))) \<and>
        (\<forall>q \<in> set rs. phase q \<noteq> Settled \<longrightarrow> set (batch q) \<subseteq> set (logs (db p)))"
        unfolding store_ok_def by simp
      with sub show ?thesis by blast
    qed
    ultimately show ?thesis unfolding store_ok_def by blast
  qed
next
  case Trigger
  with f have "p1 = pushToServer_start p" by simp
  with pushToServer_start_effect [of p]
  have "logs (db p1) = logs (db p)"
    and "runs p1 = runs p @ [Returned] \<or>
         runs p1 = runs p @ [AwaitListing (config p) (settings_server p)]"
    by (auto split: if_splits)
  then show ?thesis using store_ok_append [OF ok] by auto
next
  case (ListingSettles i)
  with f have i: "i < length (runs p)" and l: "pushToServer_listed i p = Some p1"
    by (auto split: if_splits)
  from pushToServer_listed_effect [OF l] obtain cfg srv where
    full: "runs p ! i = AwaitListing cfg srv \<and> db p1 = db p \<and>
           (runs p1 = (runs p)[i := Rejected] \<and> isInSync p1 = isInSync p
            \<or> runs p1 = (runs p)[i := Returned] \<and> \<not> isInSync p1
            \<or> (\<exists>rs chunks. runs p1 = (runs p)[i := AwaitAll rs] \<and> isInSync p1 = isInSync p
                  \<and> medium_ok (db p)
                  \<and> chunkRecords (sort_key timestamp (logs (db p))) (chunkSize cfg) = Some chunks
                  \<and> map batch rs = chunks))"
    by (elim exE)
  then have d: "db p1 = db p" and
    c: "runs p1 = (runs p)[i := Rejected]
        \<or> runs p1 = (runs p)[i := Returned]
        \<or> (\<exists>rs chunks. runs p1 = (runs p)[i := AwaitAll rs]
              \<and> chunkRecords (sort_key timestamp (logs (db p))) (chunkSize cfg) = Some chunks
              \<and> map batch rs = chunks)"
    by blast+
  from c show ?thesis
  proof (elim disjE exE conjE)
    assume "runs p1 = (runs p)[i := Rejected]"
    from store_ok_update [OF ok i this] d show ?thesis by simp
  next
    assume "runs p1 = (runs p)[i := Returned]"
    from store_ok_update [OF ok i this] d show ?thesis by simp
  next
    fix rs chunks
    assume r: "runs p1 = (runs p)[i := AwaitAll rs]"
      and ch: "chunkRecords (sort_key timestamp (logs (db p))) (chunkSize cfg) = Some chunks"
      and b: "map batch rs = chunks"
    have "mset (map uuid (sort_key timestamp (logs (db p)))) = mset (map uuid (logs (db p)))"
      by simp
    then have "distinct (map uuid (sort_key timestamp (logs (db p))))"
      using ok mset_eq_imp_distinct_iff unfolding store_ok_def by blast
    from chunkRecords_distinct [OF ch this]
    have d1: "distinct (map uuid (concat chunks))" and s1: "set (concat chunks) \<subseteq> set (logs (db p))"
      by simp_all
    have "\<forall>q \<in> set rs. set (batch q) \<subseteq> set (logs (db p))"
    proof
      fix q assume "q \<in> set rs"
      then have "batch q \<in> set chunks" using b by auto
      then have "set (batch q) \<subseteq> set (concat chunks)" by auto
      with s1 show "set (batch q) \<subseteq> set (logs (db p))" by blast
    qed
    with d1 b show ?thesis using store_ok_update [OF ok i r] d by simp
  qed
next
  case (ResponseSettles i k outcome)
  with f have i: "i < length (runs p)" and l: "request_responded i k outcome p = Some p1"
    by (auto split: if_splits)
  from request_responded_effect [OF l] obtain rs ph where
    a: "runs p ! i = AwaitAll rs" "k < length rs" "phase (rs ! k) = AwaitResponse"
       "runs p1 = (runs p)[i := AwaitAll (rs[k := (rs ! k)\<lparr>phase := ph\<rparr>])]" "db p1 = db p"
    by blast
  from ok i a(1) have o: "distinct (map uuid (concat (map batch rs)))"
    "\<forall>q \<in> set rs. phase q \<noteq> Settled \<longrightarrow> set (batch q) \<subseteq> set (logs (db p))"
    unfolding store_ok_def by blast+
  have "\<forall>q \<in> set (rs[k := (rs ! k)\<lparr>phase := ph\<rparr>]).
          phase q \<noteq> Settled \<longrightarrow> set (batch q) \<subseteq> set (logs (db p))"
  proof (intro ballI impI)
    fix q assume q: "q \<in> set (rs[k := (rs ! k)\<lparr>phase := ph\<rparr>])" "phase q \<noteq> Settled"
    from update_member [OF q(1) a(2)] show "set (batch q) \<subseteq> set (logs (db p))"
    proof (elim disjE exE conjE)
      assume "q = (rs ! k)\<lparr>phase := ph\<rparr>"
      moreover have "set (batch (rs ! k)) \<subseteq> set (logs (db p))"
        using o(2) a(2,3) by (metis nth_mem request_phase.distinct(3))
      ultimately show ?thesis by simp
    next
      fix m assume "m < length rs" "q = rs ! m"
      with o(2) q(2) show ?thesis by (metis nth_mem)
    qed
  qed
  with o(1) a(2) show ?thesis
    using store_ok_update [OF ok i a(4)] a(5) by (simp add: map_batch_update)
next
  case (DeleteSettles i k)
  with f have i: "i < length (runs p)" and l: "request_deleted i k p = Some p1"
    by (auto split: if_splits)
  from request_deleted_effect [OF l] obtain rs where
    a: "runs p ! i = AwaitAll rs" "k < length rs" "phase (rs ! k) = AwaitDelete"
       "runs p1 = (runs p)[i := AwaitAll (rs[k := (rs ! k)\<lparr>phase := Settled\<rparr>])]"
    and lg: "logs (db p1) = logs (db p) \<or>
       logs (db p1) = filter (\<lambda>l. uuid l \<notin> set (map uuid (batch (rs ! k)))) (logs (db p))"
    by blast
  from ok i a(1) have o: "distinct (map uuid (concat (map batch rs)))"
    "\<forall>q \<in> set rs. phase q \<noteq> Settled \<longrightarrow> set (batch q) \<subseteq> set (logs (db p))"
    unfolding store_ok_def by blast+
  have act: "active (runs p ! i)" using a(1) by simp
  have keep: "set (batch q) \<subseteq> set (logs (db p1))"
    if q: "q \<in> set (rs[k := (rs ! k)\<lparr>phase := Settled\<rparr>])" "phase q \<noteq> Settled" for q
  proof -
    from update_member [OF q(1) a(2)] q(2) obtain m where
      m: "m < length rs" "m \<noteq> k" "q = rs ! m" by auto
    with o(2) q(2) have sub: "set (batch q) \<subseteq> set (logs (db p))" by (metis nth_mem)
    have dis: "uuid ` set (batch (rs ! k)) \<inter> uuid ` set (batch q) = {}"
      using batches_disjoint [OF o(1) a(2) m(1)] m(2,3) by auto
    from lg show ?thesis
    proof
      assume "logs (db p1) = logs (db p)"
      with sub show ?thesis by simp
    next
      assume "logs (db p1) = filter (\<lambda>l. uuid l \<notin> set (map uuid (batch (rs ! k)))) (logs (db p))"
      with filter_keeps [OF sub dis] show ?thesis by simp
    qed
  qed
  show ?thesis unfolding store_ok_def
  proof (intro conjI allI impI)
    show "distinct (map uuid (logs (db p1)))"
      using lg ok by (auto simp: store_ok_def distinct_map_filter)
  next
    fix j rs' assume j: "j < length (runs p1) \<and> runs p1 ! j = AwaitAll rs'"
    with a(4) have "j < length (runs p)"
      "((runs p)[i := AwaitAll (rs[k := (rs ! k)\<lparr>phase := Settled\<rparr>])]) ! j = AwaitAll rs'"
      by simp_all
    from only_run [OF sf i act this]
    have e: "rs' = rs[k := (rs ! k)\<lparr>phase := Settled\<rparr>]" by simp
    show "distinct (map uuid (concat (map batch rs')))"
      using o(1) a(2) e by (simp add: map_batch_update)
    show "\<forall>q \<in> set rs'. phase q \<noteq> Settled \<longrightarrow> set (batch q) \<subseteq> set (logs (db p1))"
      using keep e by blast
  qed
next
  case (AllSettled i)
  with f have i: "i < length (runs p)" and l: "pushToServer_done i p = Some p1"
    by (auto split: if_splits)
  from pushToServer_done_effect [OF l] have "runs p1 = (runs p)[i := Returned]" "db p1 = db p"
    by auto
  from store_ok_update [OF ok i this(1)] this(2) show ?thesis by simp
next
  case (PullConfig outcome quota)
  with f have "p1 = pull_config outcome quota p" by simp
  with pull_config_effect [of outcome quota p] ok show ?thesis by (simp add: store_ok_same)
next
  case (Medium b)
  with f have "logs (db p1) = logs (db p)" "runs p1 = runs p" by auto
  with ok show ?thesis by (rule store_ok_same)
qed

lemma invariants_exec:
  "single_flight p \<Longrightarrow> store_ok p \<Longrightarrow> exec evs p = Some p1 \<Longrightarrow> single_flight p1 \<and> store_ok p1"
proof (induction evs arbitrary: p)
  case Nil
  then show ?case by simp
next
  case (Cons e es)
  then obtain p2 where s: "fire e p = Some p2" "exec es p2 = Some p1"
    by (auto split: option.splits)
  from single_flight_fire [OF Cons.prems(1) s(1)] store_ok_fire [OF Cons.prems(1,2) s(1)]
    Cons.IH s(2) show ?case by blast
qed

lemma store_ok_init:
  "distinct (map uuid (logs d)) \<Longrightarrow> store_ok (ClientLogProvider st ls d)"
  by (simp add: store_ok_def ClientLogProvider_def)

section \<open>Records that stay\<close>

lemma retained_same:
  "retained B p \<Longrightarrow> set (logs (db p)) \<subseteq> set (logs (db p1)) \<Longrightarrow> runs p1 = runs p \<Longrightarrow>
   retained B p1"
  unfolding retained_def by auto

lemma retained_append:
  assumes "retained B p" "runs p1 = runs p @ [r]" "logs (db p1) = logs (db p)"
    "\<And>rs. r \<noteq> AwaitAll rs"
  shows "retained B p1"
  unfolding retained_def
proof (intro conjI allI impI)
  show "set B \<subseteq> set (logs (db p1))" using assms(1,3) by (simp add: retained_def)
next
  fix j rs assume a: "j < length (runs p1) \<and> runs p1 ! j = AwaitAll rs"
  have "j \<noteq> length (runs p)" using a assms(2,4) by (auto simp: nth_append)
  with a assms(2) have "j < length (runs p) \<and> runs p ! j = AwaitAll rs"
    by (auto simp: nth_append)
  with assms(1) show "\<forall>q \<in> set rs. phase q \<noteq> Settled \<longrightarrow> uuid ` set (batch q) \<inter> uuid ` set B = {}"
    unfolding retained_def by blast
qed

lemma retained_update:
  assumes "retained B p" "i < length (runs p)" "runs p1 = (runs p)[i := r]"
    "set B \<subseteq> set (logs (db p1))"
    "\<And>rs. r = AwaitAll rs \<Longrightarrow>
       \<forall>q \<in> set rs. phase q \<noteq> Settled \<longrightarrow> uuid ` set (batch q) \<inter> uuid ` set B = {}"
  shows "retained B p1"
  unfolding retained_def
proof (intro conjI allI impI)
  show "set B \<subseteq> set (logs (db p1))" by (rule assms(4))
next
  fix j rs assume a: "j < length (runs p1) \<and> runs p1 ! j = AwaitAll rs"
  show "\<forall>q \<in> set rs. phase q \<noteq> Settled \<longrightarrow> uuid ` set (batch q) \<inter> uuid ` set B = {}"
  proof (cases "j = i")
    case True
    with a assms(2,3) have "r = AwaitAll rs" by simp
    then show ?thesis by (rule assms(5))
  next
    case False
    with a assms(3) have "j < length (runs p) \<and> runs p ! j = AwaitAll rs" by simp
    with assms(1) show ?thesis unfolding retained_def by blast
  qed
qed

lemma retained_phase_change:
  assumes ret: "retained B p" and i: "i < length (runs p)" and r: "runs p ! i = AwaitAll rs"
    and k: "k < length rs" and ph: "phase (rs ! k) \<noteq> Settled"
  shows "\<forall>q \<in> set (rs[k := (rs ! k)\<lparr>phase := x\<rparr>]).
           phase q \<noteq> Settled \<longrightarrow> uuid ` set (batch q) \<inter> uuid ` set B = {}"
proof (intro ballI impI)
  fix q assume q: "q \<in> set (rs[k := (rs ! k)\<lparr>phase := x\<rparr>])" "phase q \<noteq> Settled"
  have old: "\<forall>q \<in> set rs. phase q \<noteq> Settled \<longrightarrow> uuid ` set (batch q) \<inter> uuid ` set B = {}"
    using ret i r unfolding retained_def by blast
  from update_member [OF q(1) k] show "uuid ` set (batch q) \<inter> uuid ` set B = {}"
  proof (elim disjE exE conjE)
    assume "q = (rs ! k)\<lparr>phase := x\<rparr>"
    moreover have "uuid ` set (batch (rs ! k)) \<inter> uuid ` set B = {}"
      using old k ph by (metis nth_mem)
    ultimately show ?thesis by simp
  next
    fix m assume "m < length rs" "q = rs ! m"
    with old q(2) show ?thesis by (metis nth_mem)
  qed
qed

lemma retained_fire:
  assumes ret: "retained B p" and f: "fire e p = Some p1" and nl: "\<not> is_listing e"
  shows "retained B p1"
proof (cases e)
  case DbReady
  with f have "logs (db p1) = logs (db p)" "runs p1 = runs p"
    by (auto simp: console_add_def)
  with ret show ?thesis by (simp add: retained_same)
next
  case (Submit data ty)
  with f obtain "log data ty p = Inr p1" by (auto split: sum.splits)
  from log_effect [OF this] have "runs p1 = runs p" "set (logs (db p)) \<subseteq> set (logs (db p1))"
    by auto
  with ret show ?thesis by (simp add: retained_same)
next
  case Trigger
  with f have "p1 = pushToServer_start p" by simp
  with pushToServer_start_effect [of p]
  have "logs (db p1) = logs (db p)"
    and "runs p1 = runs p @ [Returned] \<or>
         runs p1 = runs p @ [AwaitListing (config p) (settings_server p)]"
    by (auto split: if_splits)
  then show ?thesis using retained_append [OF ret] by auto
next
  case (ListingSettles i)
  with nl show ?thesis by simp
next
  case (ResponseSettles i k outcome)
  with f have i: "i < length (runs p)" and l: "request_responded i k outcome p = Some p1"
    by (auto split: if_splits)
  from request_responded_effect [OF l] obtain rs ph where
    a: "runs p ! i = AwaitAll rs" "k < length rs" "phase (rs ! k) = AwaitResponse"
       "runs p1 = (runs p)[i := AwaitAll (rs[k := (rs ! k)\<lparr>phase := ph\<rparr>])]" "db p1 = db p"
    by blast
  have "set B \<subseteq> set (logs (db p1))" using ret a(5) by (simp add: retained_def)
  moreover have "phase (rs ! k) \<noteq> Settled" using a(3) by simp
  ultimately show ?thesis
    using retained_update [OF ret i a(4)] retained_phase_change [OF ret i a(1,2)] by simp
next
  case (DeleteSettles i k)
  with f have i: "i < length (runs p)" and l: "request_deleted i k p = Some p1"
    by (auto split: if_splits)
  from request_deleted_effect [OF l] obtain rs where
    a: "runs p ! i = AwaitAll rs" "k < length rs" "phase (rs ! k) = AwaitDelete"
       "runs p1 = (runs p)[i := AwaitAll (rs[k := (rs ! k)\<lparr>phase := Settled\<rparr>])]"
    and lg: "logs (db p1) = logs (db p) \<or>
       logs (db p1) = filter (\<lambda>l. uuid l \<notin> set (map uuid (batch (rs ! k)))) (logs (db p))"
    by blast
  have ns: "phase (rs ! k) \<noteq> Settled" using a(3) by simp
  have sub: "set B \<subseteq> set (logs (db p))" using ret by (simp add: retained_def)
  have "uuid ` set (batch (rs ! k)) \<inter> uuid ` set B = {}"
    using ret i a(1,2) ns unfolding retained_def by (metis nth_mem)
  from filter_keeps [OF sub this] lg sub have "set B \<subseteq> set (logs (db p1))" by auto
  then show ?thesis
    using retained_update [OF ret i a(4)] retained_phase_change [OF ret i a(1,2) ns] by simp
next
  case (AllSettled i)
  with f have i: "i < length (runs p)" and l: "pushToServer_done i p = Some p1"
    by (auto split: if_splits)
  from pushToServer_done_effect [OF l] have "runs p1 = (runs p)[i := Returned]" "db p1 = db p"
    by auto
  moreover have "set B \<subseteq> set (logs (db p))" using ret by (simp add: retained_def)
  ultimately show ?thesis using retained_update [OF ret i, of p1 Returned] by simp
next
  case (PullConfig outcome quota)
  with f have "p1 = pull_config outcome quota p" by simp
  with pull_config_effect [of outcome quota p] ret show ?thesis by (simp add: retained_same)
next
  case (Medium b)
  with f have "logs (db p1) = logs (db p)" "runs p1 = runs p" by auto
  with ret show ?thesis by (simp add: retained_same)
qed

lemma retained_exec:
  "retained B p \<Longrightarrow> exec evs p = Some p1 \<Longrightarrow> \<forall>e \<in> set evs. \<not> is_listing e \<Longrightarrow> retained B p1"
proof (induction evs arbitrary: p)
  case Nil
  then show ?case by simp
next
  case (Cons e es)
  then obtain p2 where s: "fire e p = Some p2" "exec es p2 = Some p1"
    by (auto split: option.splits)
  from Cons.prems(3) have "\<not> is_listing e" "\<forall>e \<in> set es. \<not> is_listing e" by simp_all
  with retained_fire [OF Cons.prems(1) s(1)] Cons.IH s(2) show ?case by blast
qed

lemma retained_after_failure:
  assumes sf: "single_flight s" and ok: "store_ok s" and i: "i < length (runs s)"
    and r: "runs s ! i = AwaitAll rs" and k: "k < length rs"
    and ph: "phase (rs ! k) = AwaitResponse"
    and r1: "runs s1 = (runs s)[i := AwaitAll (rs[k := (rs ! k)\<lparr>phase := Settled\<rparr>])]"
    and d1: "db s1 = db s"
  shows "retained (batch (rs ! k)) s1"
  unfolding retained_def
proof (intro conjI allI impI)
  from ok i r have o: "distinct (map uuid (concat (map batch rs)))"
    "\<forall>q \<in> set rs. phase q \<noteq> Settled \<longrightarrow> set (batch q) \<subseteq> set (logs (db s))"
    unfolding store_ok_def by blast+
  from o(2) k ph show "set (batch (rs ! k)) \<subseteq> set (logs (db s1))"
    using d1 by (metis nth_mem request_phase.distinct(3))
  fix j rs' assume j: "j < length (runs s1) \<and> runs s1 ! j = AwaitAll rs'"
  have act: "active (runs s ! i)" using r by simp
  from j r1 have "j < length (runs s)"
    "((runs s)[i := AwaitAll (rs[k := (rs ! k)\<lparr>phase := Settled\<rparr>])]) ! j = AwaitAll rs'"
    by simp_all
  from only_run [OF sf i act this]
  have e: "rs' = rs[k := (rs ! k)\<lparr>phase := Settled\<rparr>]" by simp
  show "\<forall>q \<in> set rs'. phase q \<noteq> Settled \<longrightarrow>
          uuid ` set (batch q) \<inter> uuid ` set (batch (rs ! k)) = {}"
  proof (intro ballI impI)
    fix q assume q: "q \<in> set rs'" "phase q \<noteq> Settled"
    from update_member [OF q(1) [unfolded e] k] q(2) obtain m where
      m: "m < length rs" "m \<noteq> k" "q = rs ! m" by auto
    from batches_disjoint [OF o(1) m(1) k m(2)] m(3)
    show "uuid ` set (batch q) \<inter> uuid ` set (batch (rs ! k)) = {}" by simp
  qed
qed

section \<open>The flag\<close>

text \<open>
  The flag is cleared by two callbacks only: the one that resumes a run whose requests have all
  settled, and the listing of a run that issues no request. Once the flag is set with no run
  active, as after a listing that failed, it stays set whatever happens.
\<close>

lemma flag_cleared_only_after_settling:
  assumes f: "fire e p = Some p1" and before: "isInSync p" and after: "\<not> isInSync p1"
  shows "(\<exists>i rs. e = AllSettled i \<and> runs p ! i = AwaitAll rs
            \<and> list_all (\<lambda>r. phase r = Settled) rs)
       \<or> (\<exists>i cfg srv. e = ListingSettles i \<and> runs p ! i = AwaitListing cfg srv
            \<and> runs p1 = (runs p)[i := Returned])"
proof (cases e)
  case DbReady
  with f before after show ?thesis by (auto simp: console_add_def)
next
  case (Submit data ty)
  with f obtain "log data ty p = Inr p1" by (auto split: sum.splits)
  from log_effect [OF this] before after show ?thesis by simp
next
  case Trigger
  with f have "p1 = pushToServer_start p" by simp
  with pushToServer_start_effect [of p] before after show ?thesis by (auto split: if_splits)
next
  case (ListingSettles i)
  with f have l: "pushToServer_listed i p = Some p1" by (auto split: if_splits)
  from pushToServer_listed_effect [OF l] before after ListingSettles show ?thesis by auto
next
  case (ResponseSettles i k outcome)
  with f have l: "request_responded i k outcome p = Some p1" by (auto split: if_splits)
  from request_responded_effect [OF l] before after show ?thesis by auto
next
  case (DeleteSettles i k)
  with f have l: "request_deleted i k p = Some p1" by (auto split: if_splits)
  from request_deleted_effect [OF l] before after show ?thesis by auto
next
  case (AllSettled i)
  with f have l: "pushToServer_done i p = Some p1" by (auto split: if_splits)
  from pushToServer_done_effect [OF l] AllSettled show ?thesis by auto
next
  case (PullConfig outcome quota)
  with f have "p1 = pull_config outcome quota p" by simp
  with pull_config_effect [of outcome quota p] before after show ?thesis by simp
next
  case (Medium b)
  with f before after show ?thesis by auto
qed

lemma flag_stays_set_fire:
  assumes f: "fire e p = Some p1" and flag: "isInSync p"
    and idle: "\<forall>r \<in> set (runs p). \<not> active r"
  shows "isInSync p1 \<and> (\<forall>r \<in> set (runs p1). \<not> active r)"
proof -
  have na: "\<And>i. i < length (runs p) \<Longrightarrow> \<not> active (runs p ! i)"
    using idle by simp
  show ?thesis
  proof (cases e)
    case DbReady
    with f flag idle show ?thesis by (auto simp: console_add_def)
  next
    case (Submit data ty)
    with f obtain "log data ty p = Inr p1" by (auto split: sum.splits)
    from log_effect [OF this] flag idle show ?thesis by simp
  next
    case Trigger
    with f have "p1 = pushToServer_start p" by simp
    with pushToServer_start_effect [of p] flag idle show ?thesis by auto
  next
    case (ListingSettles i)
    with f have i: "i < length (runs p)" and l: "pushToServer_listed i p = Some p1"
      by (auto split: if_splits)
    from pushToServer_listed_effect [OF l] na [OF i] show ?thesis by auto
  next
    case (ResponseSettles i k outcome)
    with f have i: "i < length (runs p)" and l: "request_responded i k outcome p = Some p1"
      by (auto split: if_splits)
    from request_responded_effect [OF l] na [OF i] show ?thesis by auto
  next
    case (DeleteSettles i k)
    with f have i: "i < length (runs p)" and l: "request_deleted i k p = Some p1"
      by (auto split: if_splits)
    from request_deleted_effect [OF l] na [OF i] show ?thesis by auto
  next
    case (AllSettled i)
    with f have i: "i < length (runs p)" and l: "pushToServer_done i p = Some p1"
      by (auto split: if_splits)
    from pushToServer_done_effect [OF l] na [OF i] show ?thesis by auto
  next
    case (PullConfig outcome quota)
    with f have "p1 = pull_config outcome quota p" by simp
    with pull_config_effect [of outcome quota p] flag idle show ?thesis by simp
  next
    case (Medium b)
    with f flag idle show ?thesis by auto
  qed
qed

lemma flag_stays_set:
  "isInSync p \<Longrightarrow> \<forall>r \<in> set (runs p). \<not> active r \<Longrightarrow> exec evs p = Some p1 \<Longrightarrow>
   isInSync p1 \<and> (\<forall>r \<in> set (runs p1). \<not> active r)"
proof (induction evs arbitrary: p)
  case Nil
  then show ?case by simp
next
  case (Cons e es)
  then obtain p2 where s: "fire e p = Some p2" "exec es p2 = Some p1"
    by (auto split: option.splits)
  from flag_stays_set_fire [OF s(1) Cons.prems(1,2)] Cons.IH [OF _ _ s(2)] show ?case by blast
qed

lemma listing_failure_rejects:
  assumes "i < length (runs p)" "runs p ! i = AwaitListing cfg srv" "\<not> medium_ok (db p)"
  shows "fire (ListingSettles i) p = Some (p\<lparr>runs := (runs p)[i := Rejected]\<rparr>)"
  using assms by (simp add: pushToServer_listed_def logs_orderBy_timestamp_toArray_def)

section \<open>Evaluation\<close>

lemmas run_defs =
  ClientLogProvider_def default_config_def settings_server_def console_add_def
  pushToServer_start_def pushToServer_listed_def request_responded_def request_deleted_def
  pushToServer_done_def request_start_def request_call_def request_headers_def or_default_def
  logs_orderBy_timestamp_toArray_def logs_bulkDelete_def logs_add_def log_def
  chunkRecords_def chunk_loop.simps splice_def
  sample_db_def sample_settings_def sample_config_def sample_log_def

text \<open>
  A \<^verbatim>\<open>null\<close> document is stored and then returned, which the callers take as nothing; a
  \<^verbatim>\<open>setItem\<close> that throws ends in the \<^verbatim>\<open>catch\<close> with the storage as it was.
\<close>

lemma null_document_is_stored:
  "fst (getConfigFromServer (PullResponds True (Some JNull)) SetItemOk
         (ClientLogProvider (Some (sample_settings 10)) Map.empty (sample_db 0))) = None
   \<and> localStorage
        (snd (getConfigFromServer (PullResponds True (Some JNull)) SetItemOk
               (ClientLogProvider (Some (sample_settings 10)) Map.empty (sample_db 0))))
        ''client-log-config'' = Some JNull"
  by (simp add: getConfigFromServer_def settings_server_def ClientLogProvider_def
      sample_settings_def Let_def)

lemma setItem_failure_is_caught:
  "fst (getConfigFromServer (PullResponds True (Some (JDoc (sample_config 3)))) SetItemThrows
         (ClientLogProvider (Some (sample_settings 10)) Map.empty (sample_db 0))) = None
   \<and> localStorage
        (snd (getConfigFromServer (PullResponds True (Some (JDoc (sample_config 3)))) SetItemThrows
               (ClientLogProvider (Some (sample_settings 10)) Map.empty (sample_db 0))))
        ''client-log-config'' = None
   \<and> console
        (snd (getConfigFromServer (PullResponds True (Some (JDoc (sample_config 3)))) SetItemThrows
               (ClientLogProvider (Some (sample_settings 10)) Map.empty (sample_db 0))))
       = [ConsoleGroup ''[CLIENT LOG]: Error load config'']"
  by (simp add: getConfigFromServer_def settings_server_def ClientLogProvider_def
      sample_settings_def console_add_def Let_def)

section \<open>The claims\<close>

text \<open>
  Claim C1 (chunking contract), evaluated on the code at eight items and chunk size 1. The
  claim asks for groups that cover every element once, in order, each of length at most the
  size. The loop removes each chunk from the array it is still indexing, and passes
  \<^verbatim>\<open>i + chunkSize\<close> as the delete count, so it returns [[0], [2, 3], [5, 6, 7]]: the elements
  1 and 4 are in no group and the second group, which is not the last, has two elements.
\<close>

theorem chunkRecords_skips_and_oversizes:
  "chunkRecords [0, 1, 2, 3, 4, 5, 6, 7 :: nat] 1 = Some [[0], [2, 3], [5, 6, 7]]"
  by (simp add: chunkRecords_def chunk_loop.simps splice_def)

text \<open>
  Claim C2 (25 records, chunk size 10), evaluated on the code. The claim expects three batch
  requests of sizes 10, 10 and 5 and an empty store when all succeed. The provider is ready,
  25 records are logged, and one run starts: it issues two requests, with the records 0..9
  and 20..24; both succeed and are deleted, the run returns and clears the flag (a third
  request does not exist, so the history is complete), and the records 10..19 are still in
  the table. The cause is the \<^verbatim>\<open>splice\<close> of \<^verbatim>\<open>chunkRecords\<close>, as in claim C1.
\<close>

theorem twentyfive_records_two_requests:
  "map_option (\<lambda>s. (transport s, logs (db s), isInSync s, map active (runs s)))
     (exec (DbReady # map (\<lambda>n. Submit (sample_log n) None) [0..<25] @
            [Trigger, ListingSettles 0,
             ResponseSettles 0 0 (PushResponds True), ResponseSettles 0 1 (PushResponds True),
             DeleteSettles 0 0, DeleteSettles 0 1, AllSettled 0])
        (ClientLogProvider (Some (sample_settings 10)) Map.empty (sample_db 0)))
   = Some ([FetchPost ''https://collector.example/client-log/logs''
              [(''Content-Type'', ''application/json'')] (map sample_log [0..<10]),
            FetchPost ''https://collector.example/client-log/logs''
              [(''Content-Type'', ''application/json'')] (map sample_log [20..<25])],
           map sample_log [10..<20], False, [False])"
  by code_simp

text \<open>
  Claim C3 (at most one sync run). In every state the provider reaches from its mount, by any
  sequence of callbacks: at most one invocation of \<^verbatim>\<open>pushToServer\<close> is suspended (active); at
  most one invocation has transport calls in flight; while a run is active any number of
  further triggers return at the guard, leaving exactly one active run, the same one, and
  issuing no transport call and no call on the table; and an invocation that passes the two
  guards has set the flag when it reaches its first \<^verbatim>\<open>await\<close>, the listing.
\<close>

theorem at_most_one_sync_run:
  assumes "exec evs (ClientLogProvider st ls d) = Some s"
  shows "length (filter active (runs s)) \<le> 1
     \<and> (\<forall>i j. i < length (runs s) \<and> j < length (runs s)
            \<and> in_flight (runs s ! i) \<and> in_flight (runs s ! j) \<longrightarrow> i = j)
     \<and> (\<forall>n. (\<exists>r \<in> set (runs s). active r) \<longrightarrow>
            (\<exists>s1. exec (replicate n Trigger) s = Some s1
                 \<and> length (filter active (runs s1)) = 1
                 \<and> transport s1 = transport s \<and> db_calls s1 = db_calls s
                 \<and> filter active (runs s1) = filter active (runs s)))
     \<and> (\<not> isInSync s \<and> sync (config s) \<longrightarrow>
            isInSync (pushToServer_start s)
            \<and> runs (pushToServer_start s) = runs s @ [AwaitListing (config s) (settings_server s)])"
proof -
  have sf: "single_flight s"
    using single_flight_exec [OF single_flight_init assms] .
  then have le: "length (filter active (runs s)) \<le> 1"
    by (auto simp: single_flight_def active_count_def split: if_splits)
  have uniq: "\<forall>i j. i < length (runs s) \<and> j < length (runs s)
            \<and> in_flight (runs s ! i) \<and> in_flight (runs s ! j) \<longrightarrow> i = j"
    using filter_at_most_one [OF le] in_flight_active by blast
  have trig: "\<exists>s1. exec (replicate n Trigger) s = Some s1
                 \<and> length (filter active (runs s1)) = 1
                 \<and> transport s1 = transport s \<and> db_calls s1 = db_calls s
                 \<and> filter active (runs s1) = filter active (runs s)"
    if ex: "\<exists>r \<in> set (runs s). active r" for n
  proof -
    from ex have pos: "0 < length (filter active (runs s))"
      by (metis filter_empty_conv length_greater_0_conv)
    with sf have sync: "isInSync s"
      by (auto simp: single_flight_def active_count_def split: if_splits)
    from pos le have one: "length (filter active (runs s)) = 1" by linarith
    have "filter active (replicate n Returned) = []" by (induction n) auto
    with triggers_while_syncing [OF sync, of n] one show ?thesis by simp
  qed
  have start: "\<not> isInSync s \<and> sync (config s) \<longrightarrow>
            isInSync (pushToServer_start s)
            \<and> runs (pushToServer_start s) = runs s @ [AwaitListing (config s) (settings_server s)]"
    by (simp add: pushToServer_start_def)
  from le uniq trig start show ?thesis by blast
qed

text \<open>
  A history with a record, two triggers, the listing and then three more triggers; and the
  trigger that starts a run in the provider that has just become ready.
\<close>

theorem at_most_one_sync_run_witness:
  "(\<exists>s. exec [DbReady, Submit (sample_log 0) None, Trigger, Trigger, ListingSettles 0, Trigger]
          (ClientLogProvider (Some (sample_settings 10)) Map.empty (sample_db 0)) = Some s
      \<and> (\<exists>r \<in> set (runs s). in_flight r)
      \<and> length (filter active (runs s)) \<le> 1
      \<and> (\<exists>s1. exec (replicate 3 Trigger) s = Some s1
             \<and> length (filter active (runs s1)) = 1 \<and> transport s1 = transport s))
   \<and> (\<exists>s. exec [DbReady] (ClientLogProvider (Some (sample_settings 10)) Map.empty (sample_db 0))
            = Some s
      \<and> \<not> isInSync s \<and> sync (config s) \<and> isInSync (pushToServer_start s))"
proof -
  let ?evs = "[DbReady, Submit (sample_log 0) None, Trigger, Trigger, ListingSettles 0, Trigger]"
  let ?p = "ClientLogProvider (Some (sample_settings 10)) Map.empty (sample_db 0)"
  have "case exec ?evs ?p of None \<Rightarrow> False | Some s \<Rightarrow> list_ex in_flight (runs s)"
    by code_simp
  then obtain s where s: "exec ?evs ?p = Some s" "\<exists>r \<in> set (runs s). in_flight r"
    by (auto simp: list_ex_iff split: option.splits)
  from s(2) have "\<exists>r \<in> set (runs s). active r" using in_flight_active by blast
  with at_most_one_sync_run [OF s(1)] s
  have first: "\<exists>s. exec ?evs ?p = Some s
      \<and> (\<exists>r \<in> set (runs s). in_flight r)
      \<and> length (filter active (runs s)) \<le> 1
      \<and> (\<exists>s1. exec (replicate 3 Trigger) s = Some s1
             \<and> length (filter active (runs s1)) = 1 \<and> transport s1 = transport s)"
    by blast
  have "case exec [DbReady] ?p of None \<Rightarrow> False | Some s \<Rightarrow> \<not> isInSync s \<and> sync (config s)"
    by code_simp
  then obtain s0 where s0: "exec [DbReady] ?p = Some s0" "\<not> isInSync s0" "sync (config s0)"
    by (auto split: option.splits)
  with at_most_one_sync_run [OF s0(1)]
  have second: "\<exists>s. exec [DbReady] ?p = Some s
      \<and> \<not> isInSync s \<and> sync (config s) \<and> isInSync (pushToServer_start s)"
    by blast
  from first second show ?thesis by blast
qed

text \<open>
  Claim C4 (the flag is cleared when the run is over, also when the listing fails), evaluated
  on the code at a listing that fails. The storage medium is unavailable when the run reads
  the listing: \<^verbatim>\<open>await db.logs.orderBy('timestamp').toArray()\<close> throws, nothing catches it, the
  run is rejected with no request issued and \<^verbatim>\<open>isInSync.current\<close> stays \<open>True\<close>. The medium
  comes back, a record is written, and the two next triggers both return at the guard: there
  is no transport call and the record stays in the table.
\<close>

theorem listing_failure_leaves_flag_set:
  "map_option (\<lambda>s. (isInSync s, runs s, transport s, logs (db s)))
     (exec [Medium False, Trigger, ListingSettles 0, Medium True, DbReady,
            Submit (sample_log 0) None, Trigger, Trigger]
        (ClientLogProvider (Some (sample_settings 10)) Map.empty (sample_db 0)))
   = Some (True, [Rejected, Returned, Returned], [], [sample_log 0])"
  by (simp add: run_defs)

text \<open>
  Counterexample to the last clause of the claim below, "the error is only logged": three
  records with chunk size 1 give two requests; the first transport call settles with a
  response that is not ok (an HTTP error status). The request is settled, its record is in
  the table, and the console holds what it held before, the entry of the ready database:
  \<^verbatim>\<open>if (response.ok)\<close> has no \<^verbatim>\<open>else\<close>, so this failure is not logged.
\<close>

theorem failed_response_not_logged_counterexample:
  "exec [DbReady, Trigger, ListingSettles 0, ResponseSettles 0 0 (PushResponds False)]
     (ClientLogProvider (Some (sample_settings 1)) Map.empty (sample_db 3)) \<noteq> None
   \<and> console (the (exec [DbReady, Trigger, ListingSettles 0]
        (ClientLogProvider (Some (sample_settings 1)) Map.empty (sample_db 3))))
     = [ConsoleDebug ''[CLIENT LOG]: Ready!'']
   \<and> console (the (exec [DbReady, Trigger, ListingSettles 0, ResponseSettles 0 0 (PushResponds False)]
        (ClientLogProvider (Some (sample_settings 1)) Map.empty (sample_db 3))))
     = [ConsoleDebug ''[CLIENT LOG]: Ready!'']
   \<and> runs (the (exec [DbReady, Trigger, ListingSettles 0, ResponseSettles 0 0 (PushResponds False)]
        (ClientLogProvider (Some (sample_settings 1)) Map.empty (sample_db 3))))
     = [AwaitAll [\<lparr>batch = [sample_log 0], phase = Settled\<rparr>,
                  \<lparr>batch = [sample_log 2], phase = AwaitResponse\<rparr>]]
   \<and> logs (db (the (exec [DbReady, Trigger, ListingSettles 0, ResponseSettles 0 0 (PushResponds False)]
        (ClientLogProvider (Some (sample_settings 1)) Map.empty (sample_db 3)))))
     = [sample_log 0, sample_log 1, sample_log 2]"
  by (simp add: run_defs upt_rec eval_nat_numeral)

text \<open>
  Claim C5 (a failed batch stays for the next sync), as amended. Let the provider be in a
  reachable state (its table having unique keys at the mount), and let the transport call of
  request \<open>k\<close> of run \<open>i\<close> fail: it rejects, or the response is not ok. Then, whatever
  callbacks follow up to the next reading of the listing, every record of that batch is in
  the table, hence in the listing the next sync reads. The failure changes nothing but the
  phase of that request: the sibling requests and the run go on, the flag and the table are
  as before, no call is issued. A call that rejects is written to the console and goes
  nowhere else; a response that is not ok is not written to the console.
\<close>

theorem failed_batch_stays_in_store:
  assumes wf: "distinct (map uuid (logs d))"
    and reach: "exec evs (ClientLogProvider st ls d) = Some s"
    and fail: "outcome \<noteq> PushResponds True"
    and step: "fire (ResponseSettles i k outcome) s = Some s1"
    and later: "exec evs1 s1 = Some s2"
    and nolist: "\<forall>e \<in> set evs1. \<not> is_listing e"
  shows "\<exists>rs. runs s ! i = AwaitAll rs \<and> k < length rs
      \<and> set (batch (rs ! k)) \<subseteq> set (logs (db s2))
      \<and> (\<forall>l. logs_orderBy_timestamp_toArray (db s2) = Inr l \<longrightarrow> set (batch (rs ! k)) \<subseteq> set l)
      \<and> runs s1 = (runs s)[i := AwaitAll (rs[k := (rs ! k)\<lparr>phase := Settled\<rparr>])]
      \<and> isInSync s1 = isInSync s \<and> db s1 = db s \<and> transport s1 = transport s
      \<and> console s1 = (if outcome = PushRejects
                       then console s @ [ConsoleGroup ''[CLIENT LOG]: Error push logs'']
                       else console s)"
proof -
  from invariants_exec [OF single_flight_init store_ok_init [OF wf] reach]
  have sf: "single_flight s" and ok: "store_ok s" by simp_all
  from step have i: "i < length (runs s)" and rr: "request_responded i k outcome s = Some s1"
    by (auto split: if_splits)
  from request_responded_effect [OF rr] fail obtain rs where
    a: "runs s ! i = AwaitAll rs" "k < length rs" "phase (rs ! k) = AwaitResponse"
       "runs s1 = (runs s)[i := AwaitAll (rs[k := (rs ! k)\<lparr>phase := Settled\<rparr>])]"
       "db s1 = db s" "isInSync s1 = isInSync s"
    by auto
  from retained_after_failure [OF sf ok i a(1,2,3,4,5)]
  have "retained (batch (rs ! k)) s1" .
  from retained_exec [OF this later nolist]
  have keep: "set (batch (rs ! k)) \<subseteq> set (logs (db s2))" by (simp add: retained_def)
  then have listing: "\<forall>l. logs_orderBy_timestamp_toArray (db s2) = Inr l \<longrightarrow>
                        set (batch (rs ! k)) \<subseteq> set l"
    by (auto simp: logs_orderBy_timestamp_toArray_def split: if_splits)
  from rr a(1,2,3) fail
  have eff: "transport s1 = transport s \<and>
             console s1 = (if outcome = PushRejects
                           then console s @ [ConsoleGroup ''[CLIENT LOG]: Error push logs'']
                           else console s)"
    by (cases outcome) (auto simp: request_responded_def console_add_def)
  from a keep listing eff show ?thesis by blast
qed

text \<open>
  Three records with chunk size 1: the first request is rejected, the second succeeds and
  deletes, the run ends and a new trigger arrives.
\<close>

theorem failed_batch_stays_in_store_witness:
  "\<exists>s s1 s2.
      distinct (map uuid (logs (sample_db 3)))
    \<and> exec [DbReady, Trigger, ListingSettles 0]
        (ClientLogProvider (Some (sample_settings 1)) Map.empty (sample_db 3)) = Some s
    \<and> fire (ResponseSettles 0 0 PushRejects) s = Some s1
    \<and> exec [ResponseSettles 0 1 (PushResponds True), DeleteSettles 0 1, AllSettled 0, Trigger] s1
        = Some s2
    \<and> (\<exists>rs. runs s ! 0 = AwaitAll rs \<and> batch (rs ! 0) = [sample_log 0]
          \<and> set (batch (rs ! 0)) \<subseteq> set (logs (db s2)))"
proof -
  let ?p = "ClientLogProvider (Some (sample_settings 1)) Map.empty (sample_db 3)"
  let ?evs1 = "[ResponseSettles 0 1 (PushResponds True), DeleteSettles 0 1, AllSettled 0, Trigger]"
  have wf: "distinct (map uuid (logs (sample_db 3)))" by code_simp
  have "case exec [DbReady, Trigger, ListingSettles 0] ?p of None \<Rightarrow> False
        | Some s \<Rightarrow>
            (case runs s ! 0 of AwaitAll rs \<Rightarrow> batch (rs ! 0) = [sample_log 0] | _ \<Rightarrow> False)
            \<and> (case fire (ResponseSettles 0 0 PushRejects) s of None \<Rightarrow> False
               | Some s1 \<Rightarrow> (case exec ?evs1 s1 of None \<Rightarrow> False | Some s2 \<Rightarrow> True))"
    by code_simp
  then obtain s s1 s2 rs0 where
    s: "exec [DbReady, Trigger, ListingSettles 0] ?p = Some s"
    and b: "runs s ! 0 = AwaitAll rs0" "batch (rs0 ! 0) = [sample_log 0]"
    and s1: "fire (ResponseSettles 0 0 PushRejects) s = Some s1"
    and s2: "exec ?evs1 s1 = Some s2"
    by (auto split: option.splits run.splits)
  have nl: "\<forall>e \<in> set ?evs1. \<not> is_listing e" by simp
  have f: "PushRejects \<noteq> PushResponds True" by simp
  from failed_batch_stays_in_store [OF wf s f s1 s2 nl] b wf s s1 s2 show ?thesis by auto
qed

text \<open>
  Claim C6 (admission by level). \<^verbatim>\<open>log\<close> calls \<^verbatim>\<open>db.logs.add(data)\<close> exactly when the provider is
  ready, the type is \<^verbatim>\<open>LOG\<close> (given or by default) and \<^verbatim>\<open>data.level >= config.logLevel\<close>. A record
  below the level causes no call and leaves the table as it is; so does every call that is
  not admitted. An admitted record whose key is new, on a working medium, is appended to the
  table.
\<close>

theorem log_writes_iff_admitted:
  "\<exists>p1. log data typ p = Inr p1
     \<and> db_calls p1 =
         (if ready p \<and> (typ = None \<or> typ = Some LOG)
             \<and> level_value (level data) \<ge> level_value (logLevel (config p))
          then db_calls p @ [Add data] else db_calls p)
     \<and> (level_value (level data) < level_value (logLevel (config p)) \<longrightarrow>
           db_calls p1 = db_calls p \<and> db p1 = db p)
     \<and> (ready p \<and> (typ = None \<or> typ = Some LOG)
           \<and> level_value (level data) \<ge> level_value (logLevel (config p))
           \<and> medium_ok (db p) \<and> uuid data \<notin> set (map uuid (logs (db p))) \<longrightarrow>
           logs (db p1) = logs (db p) @ [data])
     \<and> (\<not> (ready p \<and> (typ = None \<or> typ = Some LOG)
           \<and> level_value (level data) \<ge> level_value (logLevel (config p))) \<longrightarrow>
           db p1 = db p)"
  by (cases "typ") (auto simp: log_def logs_add_def console_add_def Let_def split: sum.splits)

text \<open>The default provider, made ready, admits a record of level \<^verbatim>\<open>INFO\<close>.\<close>

theorem log_writes_iff_admitted_witness:
  "ready (the (fire DbReady (ClientLogProvider None Map.empty (sample_db 0))))
   \<and> level_value (level (sample_log 0)) \<ge> level_value (logLevel (config (the (fire DbReady (ClientLogProvider None Map.empty (sample_db 0))))))
   \<and> (\<exists>p1. log (sample_log 0) None (the (fire DbReady (ClientLogProvider None Map.empty (sample_db 0)))) = Inr p1
         \<and> db_calls p1 = [Add (sample_log 0)] \<and> logs (db p1) = [sample_log 0])"
  using log_writes_iff_admitted [of "sample_log 0" None "the (fire DbReady (ClientLogProvider None Map.empty (sample_db 0)))"]
  by (simp add: ClientLogProvider_def sample_db_def default_config_def sample_log_def console_add_def)


text \<open>
  Counterexample to the second half of the claim below: the local storage holds a snapshot
  under \<^verbatim>\<open>client-log-config\<close>, no configuration is passed in, and the provider starts with the
  built-in defaults, which differ from the snapshot.
\<close>

theorem snapshot_not_read_counterexample:
  "localStorage
     (ClientLogProvider None [''client-log-config'' \<mapsto> JDoc (sample_config 3)] (sample_db 0))
     ''client-log-config'' = Some (JDoc (sample_config 3))
   \<and> config
       (ClientLogProvider None [''client-log-config'' \<mapsto> JDoc (sample_config 3)] (sample_db 0))
     = default_config
   \<and> default_config \<noteq> sample_config 3"
  by (simp add: ClientLogProvider_def default_config_def sample_config_def)

text \<open>
  Claim C8 (the configuration snapshot), as amended. On every successful fetch a copy of the
  fetched configuration is stored under the key \<^verbatim>\<open>client-log-config\<close>: whenever
  \<^verbatim>\<open>getConfigFromServer\<close> gives its callers a configuration, the local storage holds that
  configuration under the key; and with the pull enabled, an ok response whose body is read
  and parsed to a configuration, and a \<^verbatim>\<open>setItem\<close> that does not throw, the configuration is
  stored and returned. The snapshot is never read: the initial configuration does not depend
  on the local storage, it is \<^verbatim>\<open>settings.config\<close> when given and the built-in defaults
  otherwise.
\<close>

theorem snapshot_written_never_read:
  "(getConfigFromServer outcome quota p = (Some cfg, p1) \<longrightarrow>
      localStorage p1 = (localStorage p)(''client-log-config'' \<mapsto> JDoc cfg))
   \<and> (settings_server p = Some srv \<and> configSync srv = Some cs \<and> cs_enabled cs = Some True
        \<and> outcome = PullResponds True (Some doc)
        \<and> (case cs_parseResponse cs of Some parse \<Rightarrow> parse doc | None \<Rightarrow> Some doc)
            = Some (JDoc cfg)
        \<and> quota = SetItemOk
        \<longrightarrow> fst (getConfigFromServer outcome quota p) = Some cfg
          \<and> localStorage (snd (getConfigFromServer outcome quota p))
              = (localStorage p)(''client-log-config'' \<mapsto> JDoc cfg))
   \<and> config (ClientLogProvider st ls d) = config (ClientLogProvider st ls' d)
   \<and> config (ClientLogProvider st ls d) =
       (case st of None \<Rightarrow> default_config
        | Some s \<Rightarrow> (case settings_config s of None \<Rightarrow> default_config | Some c \<Rightarrow> c))"
proof -
  have r: "returned x = Some cfg \<Longrightarrow> x = JDoc cfg" for x
    by (cases x) auto
  have a: "getConfigFromServer outcome quota p = (Some cfg, p1) \<longrightarrow>
      localStorage p1 = (localStorage p)(''client-log-config'' \<mapsto> JDoc cfg)"
    by (auto simp: getConfigFromServer_def console_add_def Let_def
        split: option.splits pull_outcome.splits setItem_outcome.splits if_splits dest!: r)
  have c: "settings_server p = Some srv \<and> configSync srv = Some cs \<and> cs_enabled cs = Some True
        \<and> outcome = PullResponds True (Some doc)
        \<and> (case cs_parseResponse cs of Some parse \<Rightarrow> parse doc | None \<Rightarrow> Some doc)
            = Some (JDoc cfg)
        \<and> quota = SetItemOk
        \<longrightarrow> fst (getConfigFromServer outcome quota p) = Some cfg
          \<and> localStorage (snd (getConfigFromServer outcome quota p))
              = (localStorage p)(''client-log-config'' \<mapsto> JDoc cfg)"
    by (auto simp: getConfigFromServer_def Let_def split: option.splits)
  have d: "config (ClientLogProvider st ls d) = config (ClientLogProvider st ls' d)"
    "config (ClientLogProvider st ls d) =
       (case st of None \<Rightarrow> default_config
        | Some s \<Rightarrow> (case settings_config s of None \<Rightarrow> default_config | Some c \<Rightarrow> c))"
    by (simp_all add: ClientLogProvider_def)
  from a c d show ?thesis by blast
qed

text \<open>An ok response carrying a configuration, with the pull enabled and room in the storage.\<close>

theorem snapshot_written_never_read_witness:
  "getConfigFromServer (PullResponds True (Some (JDoc (sample_config 3)))) SetItemOk
     (ClientLogProvider (Some (sample_settings 10)) Map.empty (sample_db 0))
   = (Some (sample_config 3),
      snd (getConfigFromServer (PullResponds True (Some (JDoc (sample_config 3)))) SetItemOk
            (ClientLogProvider (Some (sample_settings 10)) Map.empty (sample_db 0))))
   \<and> localStorage
       (snd (getConfigFromServer (PullResponds True (Some (JDoc (sample_config 3)))) SetItemOk
              (ClientLogProvider (Some (sample_settings 10)) Map.empty (sample_db 0))))
       ''client-log-config'' = Some (JDoc (sample_config 3))"
proof -
  let ?p = "ClientLogProvider (Some (sample_settings 10)) Map.empty (sample_db 0)"
  let ?o = "PullResponds True (Some (JDoc (sample_config 3)))"
  have h: "getConfigFromServer ?o SetItemOk ?p
           = (Some (sample_config 3), snd (getConfigFromServer ?o SetItemOk ?p))"
    by (simp add: getConfigFromServer_def settings_server_def ClientLogProvider_def
        sample_settings_def Let_def)
  from snapshot_written_never_read
         [of ?o SetItemOk ?p "sample_config 3" "snd (getConfigFromServer ?o SetItemOk ?p)"] h
  show ?thesis by (simp add: ClientLogProvider_def)
qed

text \<open>
  Claim C9 (\<^verbatim>\<open>log\<close> never throws). For every record, type and state the promise of \<^verbatim>\<open>log\<close> is
  fulfilled. When the provider is not ready the only effect is the warning: nothing is
  written, nothing is queued. When \<^verbatim>\<open>db.logs.add\<close> fails, with any error, the only effects are
  the call itself and the console entry of the \<^verbatim>\<open>catch\<close>.
\<close>

theorem log_never_throws:
  "\<exists>p1. log data typ p = Inr p1
     \<and> (\<not> ready p \<longrightarrow>
           p1 = console_add (ConsoleWarn ''[CLIENT LOG]: Database not ready'') p)
     \<and> (\<forall>e. ready p \<and> (typ = None \<or> typ = Some LOG)
           \<and> level_value (level data) \<ge> level_value (logLevel (config p))
           \<and> logs_add data (db p) = Inl e \<longrightarrow>
           p1 = console_add (ConsoleGroup ''[CLIENT LOG]: Error record creation'')
                  (p\<lparr>db_calls := db_calls p @ [Add data]\<rparr>))"
  by (cases "typ") (auto simp: log_def Let_def split: sum.splits)

text \<open>A provider that is not ready, and a ready one whose table already has the key.\<close>

theorem log_never_throws_witness:
  "log (sample_log 0) None (ClientLogProvider None Map.empty (sample_db 0))
     = Inr (console_add (ConsoleWarn ''[CLIENT LOG]: Database not ready'')
             (ClientLogProvider None Map.empty (sample_db 0)))
   \<and> logs_add (sample_log 0) (sample_db 1) = Inl ConstraintError
   \<and> log (sample_log 0) None ((ClientLogProvider None Map.empty (sample_db 1))\<lparr>ready := True\<rparr>)
     = Inr (console_add (ConsoleGroup ''[CLIENT LOG]: Error record creation'')
             ((ClientLogProvider None Map.empty (sample_db 1))
                \<lparr>ready := True, db_calls := [Add (sample_log 0)]\<rparr>))"
proof -
  let ?p0 = "ClientLogProvider None Map.empty (sample_db 0)"
  let ?p1 = "(ClientLogProvider None Map.empty (sample_db 1))\<lparr>ready := True\<rparr>"
  have r0: "\<not> ready ?p0" by (simp add: ClientLogProvider_def)
  have r1: "ready ?p1 \<and> level_value (logLevel (config ?p1)) \<le> level_value (level (sample_log 0))
            \<and> db_calls ?p1 = []"
    by (simp add: ClientLogProvider_def default_config_def sample_log_def)
  have e: "logs_add (sample_log 0) (db ?p1) = Inl ConstraintError"
    "logs_add (sample_log 0) (sample_db 1) = Inl ConstraintError"
    by (simp_all add: ClientLogProvider_def logs_add_def sample_db_def)
  from log_never_throws [of "sample_log 0" None ?p0] r0
  have a: "log (sample_log 0) None ?p0
           = Inr (console_add (ConsoleWarn ''[CLIENT LOG]: Database not ready'') ?p0)"
    by auto
  from log_never_throws [of "sample_log 0" None ?p1] r1 e(1)
  have b: "log (sample_log 0) None ?p1
           = Inr (console_add (ConsoleGroup ''[CLIENT LOG]: Error record creation'')
                   (?p1\<lparr>db_calls := db_calls ?p1 @ [Add (sample_log 0)]\<rparr>))"
    by auto
  from a b e(2) r1 show ?thesis by simp
qed

text \<open>
  Claim C10 (other types are ignored). For a type other than \<^verbatim>\<open>LogType.LOG\<close> the promise of
  \<^verbatim>\<open>log\<close> is fulfilled, the table is not called and not changed, and a ready provider is left
  exactly as it was; one that is not ready prints its warning, as for every type.
\<close>

theorem log_other_type_ignored:
  "t \<noteq> LOG \<Longrightarrow>
   \<exists>p1. log data (Some t) p = Inr p1
     \<and> db p1 = db p \<and> db_calls p1 = db_calls p
     \<and> p1 = (if ready p then p
             else console_add (ConsoleWarn ''[CLIENT LOG]: Database not ready'') p)"
  by (auto simp: log_def Let_def console_add_def)

text \<open>A record sent with the type \<^verbatim>\<open>CONFIG\<close> to a ready provider.\<close>

theorem log_other_type_ignored_witness:
  "CONFIG \<noteq> LOG
   \<and> log (sample_log 0) (Some CONFIG) ((ClientLogProvider None Map.empty (sample_db 0))\<lparr>ready := True\<rparr>)
     = Inr ((ClientLogProvider None Map.empty (sample_db 0))\<lparr>ready := True\<rparr>)"
proof -
  have h: "CONFIG \<noteq> LOG" by simp
  from log_other_type_ignored [OF h, of "sample_log 0"
      "(ClientLogProvider None Map.empty (sample_db 0))\<lparr>ready := True\<rparr>"]
  show ?thesis by auto
qed

end
